theory Spec2Isabelle
  imports Complex_Main
begin

section \<open>Vectors and matrices\<close>

text \<open>
  Eigen vectors are lists and Eigen matrices are lists of rows. A freshly sized vector or
  matrix (\<open>resize\<close>, or a constructor with a size) holds zeros here; the C++ leaves its
  entries unset, and every function below overwrites the entries it later reads.
  An element access outside the bounds is undefined behaviour in the C++ (the build
  modelled is the one with \<open>NDEBUG\<close>, where \<open>assert\<close> and the
  \<open>#ifndef NDEBUG\<close> blocks are compiled out), so the theorems below carry the
  hypotheses that keep every index inside its bounds.
\<close>

type_synonym 'a vec = "'a list"
type_synonym 'a mat = "'a list list"

definition zero_vec :: "nat \<Rightarrow> 'a::zero vec" where
  "zero_vec n = replicate n 0"

definition zero_mat :: "nat \<Rightarrow> nat \<Rightarrow> 'a::zero mat" where
  "zero_mat r c = replicate r (replicate c 0)"

definition mat_set :: "'a mat \<Rightarrow> nat \<Rightarrow> nat \<Rightarrow> 'a \<Rightarrow> 'a mat" where
  "mat_set M i j x = M[i := (M ! i)[j := x]]"

definition mat_dims :: "'a mat \<Rightarrow> nat \<Rightarrow> nat \<Rightarrow> bool" where
  "mat_dims M r c = (length M = r \<and> list_all (\<lambda>row. length row = c) M)"

section \<open>The symmetric RBM (class RbmSpinSymm)\<close>

text \<open>
  The members of \<open>RbmSpinSymm<T>\<close>. A C++ member \<open>x_\<close> is the field \<open>x\<close>; the three
  members \<open>W_\<close>, \<open>a_\<close> and \<open>b_\<close> (the parameters "without symmetries", which the source
  calls the bare ones) are \<open>Wbare\<close>, \<open>abare\<close> and \<open>bbare\<close>. The scalar type \<open>T\<close> is the
  type variable \<open>'a\<close>; configurations are vectors of doubles, modelled as reals.
  Indices and sizes are natural numbers.
\<close>

record 'a RbmSpinSymm =
  permtable :: "nat list list"
  permsize :: nat
  nv :: nat
  alpha :: nat
  nh :: nat
  npar :: nat
  nbarepar :: nat
  Wbare :: "'a mat"
  Wsymm :: "'a mat"
  abare :: "'a vec"
  asymm :: 'a
  bbare :: "'a vec"
  bsymm :: "'a vec"
  DerMatSymm :: "real mat"
  usea :: bool
  useb :: bool

text \<open>\<open>SetBareParameters\<close>: the three loops that expand the reduced parameters.\<close>

definition SetBareParameters :: "'a RbmSpinSymm \<Rightarrow> 'a RbmSpinSymm" where
  "SetBareParameters m =
    (let a1 = fold (\<lambda>i av. av[i := asymm m]) [0..<nv m] (abare m);
         b1 = fold (\<lambda>j bv. let jsymm = j div permsize m in bv[j := bsymm m ! jsymm])
                [0..<nh m] (bbare m);
         W1 = fold (\<lambda>i. fold (\<lambda>j Wm. let jsymm = j div permsize m in
                  mat_set Wm i j (Wsymm m ! (permtable m ! i ! (j mod permsize m)) ! jsymm))
                [0..<nh m]) [0..<nv m] (Wbare m)
     in m\<lparr>Wbare := W1, abare := a1, bbare := b1\<rparr>)"

text \<open>
  \<open>SetParameters\<close>: the counter \<open>k\<close> runs through \<open>pars\<close> while the loops fill
  \<open>asymm\<close>, \<open>bsymm\<close> and \<open>Wsymm\<close>; then the bare parameters are rebuilt.
\<close>

definition SetParameters :: "'a::zero RbmSpinSymm \<Rightarrow> 'a vec \<Rightarrow> 'a RbmSpinSymm" where
  "SetParameters m pars =
    (let k0 = (0::nat);
         (as1, k1) = (if usea m then (pars ! k0, k0 + 1) else (0, k0));
         (bs1, k2) = (if useb m
                      then fold (\<lambda>p (bs, k). (bs[p := pars ! k], k + 1)) [0..<alpha m] (bsymm m, k1)
                      else (zero_vec (alpha m), k1));
         (Ws1, k3) = fold (\<lambda>i. fold (\<lambda>j (Ws, k). (mat_set Ws i j (pars ! k), k + 1))
                        [0..<alpha m]) [0..<nv m] (Wsymm m, k2)
     in SetBareParameters (m\<lparr>Wsymm := Ws1, asymm := as1, bsymm := bs1\<rparr>))"

text \<open>\<open>GetParameters\<close>: the same walk, reading the reduced parameters into \<open>pars\<close>.\<close>

definition GetParameters :: "'a::zero RbmSpinSymm \<Rightarrow> 'a vec" where
  "GetParameters m =
    (let pars0 = zero_vec (npar m);
         k0 = (0::nat);
         (pars1, k1) = (if usea m then (pars0[k0 := asymm m], k0 + 1) else (pars0, k0));
         (pars2, k2) = (if useb m
                        then fold (\<lambda>p (pars, k). (pars[k := bsymm m ! p], k + 1))
                               [0..<alpha m] (pars1, k1)
                        else (pars1, k1));
         (pars3, k3) = fold (\<lambda>i. fold (\<lambda>j (pars, k). (pars[k := Wsymm m ! i ! j], k + 1))
                          [0..<alpha m]) [0..<nv m] (pars2, k2)
     in pars3)"

text \<open>
  \<open>Init\<close>, with the constructor's member initialisers: the sizes, the zeroed members of
  the branches without visible or hidden bias, and the matrix \<open>DerMatSymm\<close> that maps the
  bare derivatives to the symmetric ones. \<open>permtable\<close> is \<open>graph.SymmetryTable()\<close>.
  \<open>std::floor(double(k)/double(permsize_))\<close> is \<open>k div permsize\<close> on natural numbers.
\<close>

definition DerMatSymm_a ::
  "nat \<Rightarrow> nat \<Rightarrow> real mat \<times> nat \<Rightarrow> real mat \<times> nat" where
  "DerMatSymm_a nv0 k = fold (\<lambda>p (M, kbare). (mat_set M k p 1, kbare + 1)) [0..<nv0]"

definition DerMatSymm_b ::
  "nat \<Rightarrow> nat \<Rightarrow> nat \<Rightarrow> real mat \<times> nat \<Rightarrow> real mat \<times> nat" where
  "DerMatSymm_b nh0 ps k =
     fold (\<lambda>p (M, kbare). let ksymm = k div ps in (mat_set M (ksymm + k) kbare 1, kbare + 1))
       [0..<nh0]"

definition DerMatSymm_W ::
  "nat list list \<Rightarrow> nat \<Rightarrow> nat \<Rightarrow> nat \<Rightarrow> nat \<Rightarrow> nat \<Rightarrow> real mat \<times> nat \<Rightarrow> real mat \<times> nat" where
  "DerMatSymm_W pt nv0 nh0 ps al k =
     fold (\<lambda>i. fold (\<lambda>j (M, kbare).
         let isymm = pt ! i ! (j mod ps);
             jsymm = j div ps;
             ksymm = jsymm + al * isymm
         in (mat_set M (ksymm + k) kbare 1, kbare + 1)) [0..<nh0]) [0..<nv0]"

definition Init :: "nat \<Rightarrow> nat \<Rightarrow> bool \<Rightarrow> bool \<Rightarrow> nat list list \<Rightarrow> 'a::zero RbmSpinSymm" where
  "Init nv0 alpha0 usea0 useb0 pt =
    (let ps = length pt;
         nh0 = alpha0 * ps;
         npar0 = nv0 * alpha0;
         nbarepar0 = nv0 * nh0;
         (npar1, nbarepar1) = (if usea0 then (npar0 + 1, nbarepar0 + nv0) else (npar0, nbarepar0));
         (npar2, nbarepar2) = (if useb0 then (npar1 + alpha0, nbarepar1 + nh0) else (npar1, nbarepar1));
         D0 = zero_mat npar2 nbarepar2;
         k0 = (0::nat);
         kbare0 = (0::nat);
         ((D1, kbare1), k1) = (if usea0 then (DerMatSymm_a nv0 k0 (D0, kbare0), k0 + 1)
                               else ((D0, kbare0), k0));
         ((D2, kbare2), k2) = (if useb0 then (DerMatSymm_b nh0 ps k1 (D1, kbare1), k1 + alpha0)
                               else ((D1, kbare1), k1));
         (D3, kbare3) = DerMatSymm_W pt nv0 nh0 ps alpha0 k2 (D2, kbare2)
     in \<lparr>permtable = pt, permsize = ps, nv = nv0, alpha = alpha0, nh = nh0,
         npar = npar2, nbarepar = nbarepar2,
         Wbare = zero_mat nv0 nh0, Wsymm = zero_mat nv0 alpha0,
         abare = zero_vec nv0, asymm = 0,
         bbare = zero_vec nh0, bsymm = zero_vec alpha0,
         DerMatSymm = D3, usea = usea0, useb = useb0\<rparr>)"

text \<open>
  The sizes that \<open>Init\<close> establishes and that the parameter setters keep: the invariant
  of the class.
\<close>

definition dims_ok :: "'a RbmSpinSymm \<Rightarrow> bool" where
  "dims_ok m \<longleftrightarrow>
     length (permtable m) = permsize m \<and>
     alpha m * permsize m = nh m \<and>
     nv m * alpha m + (if usea m then 1 else 0) + (if useb m then alpha m else 0) = npar m \<and>
     mat_dims (Wbare m) (nv m) (nh m) \<and>
     mat_dims (Wsymm m) (nv m) (alpha m) \<and>
     length (abare m) = nv m \<and>
     length (bbare m) = nh m \<and>
     length (bsymm m) = alpha m"

text \<open>
  The hidden-unit arguments \<open>W_.transpose()*v+b_\<close>, which \<open>LogVal\<close>, \<open>InitLookup\<close>,
  \<open>BareDerLog\<close> and \<open>LogValDiff\<close> all compute. The product of a \<open>T\<close> by a double is the
  product with \<open>of_real\<close>.
\<close>

definition thetas :: "'a::real_normed_field RbmSpinSymm \<Rightarrow> real vec \<Rightarrow> 'a vec" where
  "thetas m v =
     map (\<lambda>j. (\<Sum>i\<leftarrow>[0..<nv m]. Wbare m ! i ! j * of_real (v ! i)) + bbare m ! j) [0..<nh m]"

text \<open>
  \<open>RbmSpin<T>::lncosh\<close> and \<open>RbmSpin<T>::tanh\<close> apply a function to every entry of a
  vector. The class \<open>RbmSpin\<close> is not among the sources, so the two functions are the
  parameters \<open>lnc\<close> and \<open>tnh\<close> of the operations that call them. The members \<open>thetas_\<close>,
  \<open>lnthetas_\<close>, \<open>thetasnew_\<close> and \<open>lnthetasnew_\<close> are buffers that each operation
  overwrites before it reads them; they are local values here.
\<close>

definition LogVal :: "('a \<Rightarrow> 'a) \<Rightarrow> 'a::real_normed_field RbmSpinSymm \<Rightarrow> real vec \<Rightarrow> 'a" where
  "LogVal lnc m v =
     (let lnthetas = map lnc (thetas m v)
      in (\<Sum>i\<leftarrow>[0..<nv m]. of_real (v ! i) * abare m ! i) + sum_list lnthetas)"

text \<open>
  The look-up table of the machine is a list of vectors, of which only \<open>V(0)\<close> is used.
\<close>

type_synonym 'a LookupType = "'a vec list"

definition InitLookup ::
  "'a::real_normed_field RbmSpinSymm \<Rightarrow> real vec \<Rightarrow> 'a LookupType \<Rightarrow> 'a LookupType" where
  "InitLookup m v lt =
     (let lt1 = (if length lt = 0 then lt @ [zero_vec (length (bbare m))] else lt);
          lt2 = (if length (lt1 ! 0) \<noteq> length (bbare m)
                 then lt1[0 := zero_vec (length (bbare m))] else lt1)
      in lt2[0 := thetas m v])"

definition LogVal_lt ::
  "('a \<Rightarrow> 'a) \<Rightarrow> 'a::real_normed_field RbmSpinSymm \<Rightarrow> real vec \<Rightarrow> 'a LookupType \<Rightarrow> 'a" where
  "LogVal_lt lnc m v lt =
     (let lnthetas = map lnc (lt ! 0)
      in (\<Sum>i\<leftarrow>[0..<nv m]. of_real (v ! i) * abare m ! i) + sum_list lnthetas)"

text \<open>\<open>x += W_.row(sf)*d\<close>, entry by entry.\<close>

definition add_row :: "'a::real_normed_field vec \<Rightarrow> 'a vec \<Rightarrow> real \<Rightarrow> 'a vec" where
  "add_row x row d = map2 (+) x (map (\<lambda>w. w * of_real d) row)"

definition UpdateLookup ::
  "'a::real_normed_field RbmSpinSymm \<Rightarrow> real vec \<Rightarrow> nat list \<Rightarrow> real vec \<Rightarrow>
     'a LookupType \<Rightarrow> 'a LookupType" where
  "UpdateLookup m v tochange newconf lt =
     (if length tochange \<noteq> 0
      then fold (\<lambda>s l. let sf = tochange ! s
                        in l[0 := add_row (l ! 0) (Wbare m ! sf) (newconf ! s - v ! sf)])
             [0..<length tochange] lt
      else lt)"

text \<open>\<open>LogValDiff\<close>, the overload for one move that reads the look-up table.\<close>

definition LogValDiff_lt ::
  "('a \<Rightarrow> 'a) \<Rightarrow> 'a::real_normed_field RbmSpinSymm \<Rightarrow> real vec \<Rightarrow> nat list \<Rightarrow> real vec \<Rightarrow>
     'a LookupType \<Rightarrow> 'a" where
  "LogValDiff_lt lnc m v tochange newconf lt =
     (let logvaldiff0 = 0
      in if length tochange \<noteq> 0
         then (let lnthetas = map lnc (lt ! 0);
                   thetasnew0 = lt ! 0;
                   (logvaldiff1, thetasnew1) =
                      fold (\<lambda>s (logvaldiff, thetasnew). let sf = tochange ! s
                              in (logvaldiff + abare m ! sf * of_real (newconf ! s - v ! sf),
                                  add_row thetasnew (Wbare m ! sf) (newconf ! s - v ! sf)))
                        [0..<length tochange] (logvaldiff0, thetasnew0);
                   lnthetasnew = map lnc thetasnew1
               in logvaldiff1 + (sum_list lnthetasnew - sum_list lnthetas))
         else logvaldiff0)"

text \<open>
  \<open>LogValDiff\<close>, the overload for a batch of moves, which recomputes the hidden-unit
  arguments from \<open>v\<close>.
\<close>

definition LogValDiff ::
  "('a \<Rightarrow> 'a) \<Rightarrow> 'a::real_normed_field RbmSpinSymm \<Rightarrow> real vec \<Rightarrow> nat list list \<Rightarrow>
     real vec list \<Rightarrow> 'a vec" where
  "LogValDiff lnc m v tochange newconf =
     (let nconn = length tochange;
          thetas0 = thetas m v;
          lnthetas = map lnc thetas0;
          logtsum = sum_list lnthetas
      in fold (\<lambda>k logvaldiffs.
            if length (tochange ! k) \<noteq> 0
            then (let (d1, thetasnew1) =
                        fold (\<lambda>s (d, thetasnew). let sf = tochange ! k ! s
                                in (d + abare m ! sf * of_real (newconf ! k ! s - v ! sf),
                                    add_row thetasnew (Wbare m ! sf) (newconf ! k ! s - v ! sf)))
                          [0..<length (tochange ! k)] (logvaldiffs ! k, thetas0);
                      lnthetasnew = map lnc thetasnew1
                  in logvaldiffs[k := d1 + (sum_list lnthetasnew - logtsum)])
            else logvaldiffs)
          [0..<nconn] (zero_vec nconn))"

text \<open>
  \<open>BareDerLog\<close> and \<open>DerLog\<close>: the derivatives with respect to the bare parameters,
  written at the running counter \<open>k\<close>, and their image under \<open>DerMatSymm\<close>.
\<close>

definition BareDerLog ::
  "('a \<Rightarrow> 'a) \<Rightarrow> 'a::real_normed_field RbmSpinSymm \<Rightarrow> real vec \<Rightarrow> 'a vec" where
  "BareDerLog tnh m v =
     (let der0 = zero_vec (nbarepar m);
          k0 = (0::nat);
          (der1, k1) = (if usea m
                        then (fold (\<lambda>k der. der[k := of_real (v ! k)]) [k0..<nv m] der0, max k0 (nv m))
                        else (der0, k0));
          lnthetas = map tnh (thetas m v);
          (der2, k2) = (if useb m
                        then fold (\<lambda>p (der, k). (der[k := lnthetas ! p], k + 1)) [0..<nh m] (der1, k1)
                        else (der1, k1));
          (der3, k3) = fold (\<lambda>i. fold (\<lambda>j (der, k). (der[k := lnthetas ! j * of_real (v ! i)], k + 1))
                         [0..<nh m]) [0..<nv m] (der2, k2)
      in der3)"

definition mat_vec :: "real mat \<Rightarrow> 'a::real_normed_field vec \<Rightarrow> 'a vec" where
  "mat_vec M x = map (\<lambda>row. \<Sum>c\<leftarrow>[0..<length x]. of_real (row ! c) * x ! c) M"

definition DerLog ::
  "('a \<Rightarrow> 'a) \<Rightarrow> 'a::real_normed_field RbmSpinSymm \<Rightarrow> real vec \<Rightarrow> 'a vec" where
  "DerLog tnh m v = mat_vec (DerMatSymm m) (BareDerLog tnh m v)"

text \<open>
  Modelled from the spec: \<open>RbmSpin<T>::lncosh\<close> at \<open>T = double\<close> (the class is not among
  the sources), in the numerically stable form the spec gives,
  \<open>lncosh(x) = |x| + log((1 + exp(-2|x|))/2)\<close>; the matching \<open>tanh\<close> is the hyperbolic
  tangent.
\<close>

definition lncosh :: "real \<Rightarrow> real" where
  "lncosh x = \<bar>x\<bar> + ln ((1 + exp (- 2 * \<bar>x\<bar>)) / 2)"

section \<open>Failures and the random engine\<close>

text \<open>
  \<open>std::abort()\<close> is the error \<open>Abort\<close>. A read or write outside a \<open>std::vector\<close>, and a
  distribution built on an empty range, are undefined behaviour in the C++: the model
  stops there with \<open>UndefinedBehaviour\<close> and says nothing about what follows.

  The random engine is modelled by what is drawn from it: for each distribution object
  of the sources (\<open>distrs\<close>, \<open>diststate\<close> and \<open>distu\<close> in \<open>Sweep\<close>, \<open>distribution\<close> in
  \<open>RandomVals\<close>) the sequence of values it returns, in the order of the calls, and for
  \<open>std::shuffle\<close> the permutations it applies. A run exists for the sequences that respect
  the ranges of the distributions and are long enough; for any other sequence the model
  returns \<open>NoDraw\<close>. In particular a loop that draws until some condition holds returns
  \<open>NoDraw\<close> when the values it is given never make the condition hold.
\<close>

datatype error = Abort | UndefinedBehaviour | NoDraw

record rgen =
  distrs :: "int list"
  diststate :: "int list"
  distu :: "real list"
  distribution :: "int list"
  shuffles :: "nat list list"

text \<open>One call of a \<open>std::uniform_int_distribution<int>(lo, hi)\<close> on a sequence of draws.\<close>

definition uniform_int :: "int \<Rightarrow> int \<Rightarrow> int list \<Rightarrow> error + int \<times> int list" where
  "uniform_int lo hi ks =
     (if hi < lo then Inl UndefinedBehaviour
      else case ks of [] \<Rightarrow> Inl NoDraw
           | k # ks' \<Rightarrow> if lo \<le> k \<and> k \<le> hi then Inr (k, ks') else Inl NoDraw)"

text \<open>One call of a \<open>std::uniform_real_distribution<double>\<close>, which draws from \<open>[0, 1)\<close>.\<close>

definition uniform_real :: "real list \<Rightarrow> error + real \<times> real list" where
  "uniform_real us =
     (case us of [] \<Rightarrow> Inl NoDraw
      | u # us' \<Rightarrow> if 0 \<le> u \<and> u < 1 then Inr (u, us') else Inl NoDraw)"

text \<open>
  \<open>std::shuffle\<close>: entry \<open>i\<close> of the result is entry \<open>p ! i\<close> of the argument, for the next
  permutation \<open>p\<close> of the positions.
\<close>

definition shuffle :: "'a list \<Rightarrow> rgen \<Rightarrow> error + 'a list \<times> rgen" where
  "shuffle xs rg =
     (case shuffles rg of [] \<Rightarrow> Inl NoDraw
      | p # ps \<Rightarrow> if sort p = [0..<length xs]
                  then Inr (map (\<lambda>i. xs ! i) p, rg\<lparr>shuffles := ps\<rparr>)
                  else Inl NoDraw)"

section \<open>The Hilbert space of spins (class Spin)\<close>

text \<open>
  The members of \<open>Spin\<close>: \<open>S_\<close> is \<open>spinS\<close> and \<open>local_\<close> is \<open>localstates\<close>. The class
  \<open>Hilbert\<close> forwards every call to the space it wraps, so the sampler below calls the
  operations of \<open>Spin\<close> directly.
\<close>

record Spin =
  spinS :: real
  totalS :: real
  constraintSz :: bool
  localstates :: "real list"
  nstates :: nat
  nspins :: nat

text \<open>The conversion \<open>int(x)\<close> of a double truncates towards zero.\<close>

definition trunc :: "real \<Rightarrow> int" where
  "trunc x = (if 0 \<le> x then \<lfloor>x\<rfloor> else \<lceil>x\<rceil>)"

definition Spin_Init :: "nat \<Rightarrow> real \<Rightarrow> error + Spin" where
  "Spin_Init nspins0 S0 =
     (if S0 \<le> 0 then Inl Abort
      else if of_int \<lfloor>2 * S0\<rfloor> \<noteq> 2 * S0 then Inl Abort
      else (let nstates0 = nat (\<lfloor>2 * S0\<rfloor> + 1);
                sp0 = - \<lfloor>2 * S0\<rfloor>;
                local0 = fst (fold (\<lambda>i (loc, sp). (loc[i := of_int sp], sp + 2)) [0..<nstates0]
                               (zero_vec nstates0, sp0))
            in Inr \<lparr>spinS = S0, totalS = 0, constraintSz = False, localstates = local0,
                     nstates = nstates0, nspins = nspins0\<rparr>))"

definition SetConstraint :: "Spin \<Rightarrow> real \<Rightarrow> Spin" where
  "SetConstraint h totalS0 = h\<lparr>totalS := totalS0, constraintSz := True\<rparr>"

text \<open>
  The constructor from the input file, whose fields \<open>Nspins\<close>, \<open>S\<close> and the optional
  \<open>TotalSz\<close> are the three arguments.
\<close>

definition Spin_json :: "nat \<Rightarrow> real \<Rightarrow> real option \<Rightarrow> error + Spin" where
  "Spin_json nspins0 S0 TotalSz =
     (case Spin_Init nspins0 S0 of Inl e \<Rightarrow> Inl e
      | Inr h \<Rightarrow> (case TotalSz of Some t \<Rightarrow> Inr (SetConstraint h t)
                  | None \<Rightarrow> Inr (h\<lparr>constraintSz := False\<rparr>)))"

text \<open>
  \<open>RandomVals\<close>. The loop of the branch without constraint draws one local state per
  site; the loop of the branch for higher spins raises a random remaining site by 2 and
  erases it once it is at its maximum. The branch for spin 1/2 writes \<open>nup\<close> entries \<open>+1\<close>,
  then entries \<open>-1\<close> up to \<open>nspins\<close>, into a vector of \<open>nspins\<close> entries and shuffles it.
\<close>

fun RandomVals_free :: "Spin \<Rightarrow> nat list \<Rightarrow> real vec \<Rightarrow> rgen \<Rightarrow> error + real vec \<times> rgen" where
  "RandomVals_free h [] state rg = Inr (state, rg)"
| "RandomVals_free h (i # is) state rg =
     (case uniform_int 0 (int (nstates h) - 1) (distribution rg) of Inl e \<Rightarrow> Inl e
      | Inr (k, ks) \<Rightarrow>
          RandomVals_free h is (state[i := 2 * (of_int k - spinS h)]) (rg\<lparr>distribution := ks\<rparr>))"

fun RandomVals_fill ::
  "Spin \<Rightarrow> nat \<Rightarrow> real vec \<Rightarrow> nat list \<Rightarrow> int \<Rightarrow> rgen \<Rightarrow> error + real vec \<times> rgen" where
  "RandomVals_fill h 0 state sites ss rg = Inr (state, rg)"
| "RandomVals_fill h (Suc n) state sites ss rg =
     (case uniform_int 0 (ss - 1) (distribution rg) of Inl e \<Rightarrow> Inl e
      | Inr (k, ks) \<Rightarrow>
          (let s = nat k in
           if length sites \<le> s then Inl UndefinedBehaviour
           else (let state1 = state[sites ! s := state ! (sites ! s) + 2];
                     (sites1, ss1) = (if state1 ! (sites ! s) > 2 * spinS h - 1
                                      then (take s sites @ drop (Suc s) sites, ss - 1)
                                      else (sites, ss))
                 in RandomVals_fill h n state1 sites1 ss1 (rg\<lparr>distribution := ks\<rparr>))))"

definition RandomVals :: "Spin \<Rightarrow> real vec \<Rightarrow> rgen \<Rightarrow> error + real vec \<times> rgen" where
  "RandomVals h state rg =
     (if \<not> constraintSz h then RandomVals_free h [0..<length state] state rg
      else if spinS h = 0.5 then
        (let nup = int (nspins h div 2) + trunc (totalS h);
             ndown = int (nspins h) - nup
         in if nup - ndown \<noteq> trunc (2 * totalS h) then Inl Abort
            else if nup < 0 \<or> int (nspins h) < nup then Inl UndefinedBehaviour
            else (let vect0 = zero_vec (nspins h);
                      vect1 = fold (\<lambda>i vect. vect[i := 1]) [0..<nat nup] vect0;
                      vect2 = fold (\<lambda>i vect. vect[i := - 1]) [nat nup..<nspins h] vect1
                  in case shuffle vect2 rg of Inl e \<Rightarrow> Inl e
                     | Inr (vect3, rg1) \<Rightarrow>
                         Inr (fold (\<lambda>i st. st[i := vect3 ! i]) [0..<nspins h] state, rg1)))
      else (let sites = [0..<nspins h];
                state0 = map (\<lambda>_. - 2 * spinS h) state;
                ss = int (nspins h)
            in RandomVals_fill h (nat \<lceil>spinS h * real (nspins h) + totalS h\<rceil>) state0 sites ss rg))"

text \<open>
  \<open>UpdateConf\<close> overwrites the listed sites in order, the counter \<open>i\<close> running through
  \<open>newconf\<close>.
\<close>

definition UpdateConf :: "real vec \<Rightarrow> nat list \<Rightarrow> real vec \<Rightarrow> real vec" where
  "UpdateConf v tochange newconf =
     fst (fold (\<lambda>sf (v1, i). (v1[sf := newconf ! i], i + 1)) tochange (v, 0::nat))"

section \<open>The hypercube and its translations (class Hypercube)\<close>

text \<open>
  The members of \<open>Hypercube\<close>, named by their accessors: \<open>L_\<close> is \<open>Length\<close>, \<open>ndim_\<close> is
  \<open>Ndim\<close>, \<open>sites_\<close> is \<open>Sites\<close>, \<open>coord2sites_\<close> is \<open>Coord2Site\<close> and \<open>nsites_\<close> is \<open>Nsites\<close>.
  Coordinates are natural numbers. The adjacency list plays no part below and is left
  out.
\<close>

record Hypercube =
  Length :: nat
  Ndim :: nat
  pbc :: bool
  Sites :: "nat list list"
  Coord2Site :: "nat list \<rightharpoonup> nat"
  Nsites :: nat

text \<open>
  \<open>GenerateLatticePoints\<close> records the coordinate vectors that its do-while loop visits
  (\<open>record_point\<close> is the body of the loop). The function \<open>next_variation\<close> that steps from
  one vector to the next is not among the sources: the sequence \<open>coords\<close> of the vectors
  visited is an argument.
\<close>

definition record_point :: "nat list \<Rightarrow> Hypercube \<Rightarrow> Hypercube" where
  "record_point coord g =
     g\<lparr>Sites := Sites g @ [coord],
       Coord2Site := (Coord2Site g)(coord \<mapsto> Nsites g),
       Nsites := Nsites g + 1\<rparr>"

definition GenerateLatticePoints :: "nat list list \<Rightarrow> Hypercube \<Rightarrow> Hypercube" where
  "GenerateLatticePoints coords g = fold record_point coords (g\<lparr>Nsites := 0\<rparr>)"

definition Hypercube_Init :: "nat \<Rightarrow> nat \<Rightarrow> bool \<Rightarrow> nat list list \<Rightarrow> Hypercube" where
  "Hypercube_Init L0 ndim0 pbc0 coords =
     GenerateLatticePoints coords
       \<lparr>Length = L0, Ndim = ndim0, pbc = pbc0, Sites = [], Coord2Site = Map.empty, Nsites = 0\<rparr>"

text \<open>
  \<open>SymmetryTable\<close>. Row \<open>i\<close> of the table sends the site \<open>p\<close> to the site whose coordinates
  are those of \<open>i\<close> plus those of \<open>p\<close>, modulo \<open>L\<close>. Without periodic boundaries the function
  aborts; \<open>coord2sites_.at\<close> throws on a vector that is not a key, and nothing catches it.
\<close>

definition translate :: "Hypercube \<Rightarrow> nat \<Rightarrow> nat \<Rightarrow> nat list" where
  "translate g i p = map (\<lambda>d. (Sites g ! i ! d + Sites g ! p ! d) mod Length g) [0..<Ndim g]"

definition SymmetryTable :: "Hypercube \<Rightarrow> error + nat list list" where
  "SymmetryTable g =
     (if \<not> pbc g then Inl Abort
      else case those (map (\<lambda>i. those (map (\<lambda>p. Coord2Site g (translate g i p)) [0..<Nsites g]))
                        [0..<Nsites g]) of
             None \<Rightarrow> Inl Abort
           | Some table \<Rightarrow> Inr table)"

text \<open>
  What the enumeration of the lattice points has to deliver: every vector of \<open>ndim\<close>
  coordinates below \<open>L\<close>, once.
\<close>

definition lattice_ok :: "nat \<Rightarrow> nat \<Rightarrow> nat list list \<Rightarrow> bool" where
  "lattice_ok L0 ndim0 coords \<longleftrightarrow>
     0 < L0 \<and> distinct coords \<and> set coords = set (List.n_lists ndim0 [0..<L0])"

text \<open>The configuration \<open>v\<close> seen through a row of the table: site \<open>i\<close> takes the value of \<open>perm[i]\<close>.\<close>

definition permute_conf :: "nat list \<Rightarrow> real vec \<Rightarrow> real vec" where
  "permute_conf perm v = map (\<lambda>i. v ! (perm ! i)) [0..<length v]"

section \<open>The Metropolis sampler with local moves (class MetropolisLocal)\<close>

text \<open>
  A value computed in floating point is not-a-number or a number. \<open>std::exp\<close> and
  \<open>std::norm\<close> send not-a-number to not-a-number, and an ordered comparison with
  not-a-number is false (IEEE 754). Numbers are exact here: rounding, overflow and
  infinities are outside the model.
\<close>

datatype 'a fp = NaN | Val 'a

text \<open>\<open>std::norm(std::exp(lvd))\<close>, the squared modulus of the exponential.\<close>

definition norm_exp :: "'a::{real_normed_field, banach} fp \<Rightarrow> real fp" where
  "norm_exp x = (case x of NaN \<Rightarrow> NaN | Val z \<Rightarrow> Val ((norm (exp z))\<^sup>2))"

text \<open>The comparison \<open>ratio > u\<close> of two doubles.\<close>

definition fp_gt :: "real fp \<Rightarrow> real \<Rightarrow> bool" where
  "fp_gt x u = (case x of NaN \<Rightarrow> False | Val r \<Rightarrow> r > u)"

text \<open>\<open>std::numeric_limits<double>::epsilon()\<close>.\<close>

definition dbl_epsilon :: real where
  "dbl_epsilon = 1 / 2 ^ 52"

text \<open>
  The sampler is a template over the machine \<open>WfType\<close>. Of the machine \<open>psi_\<close> it calls
  \<open>LogValDiff\<close> (the overload with the look-up table), \<open>UpdateLookup\<close> and \<open>InitLookup\<close>.
\<close>

record ('a, 'lt) WfType =
  psi_LogValDiff :: "real vec \<Rightarrow> nat list \<Rightarrow> real vec \<Rightarrow> 'lt \<Rightarrow> 'a fp"
  psi_UpdateLookup :: "real vec \<Rightarrow> nat list \<Rightarrow> real vec \<Rightarrow> 'lt \<Rightarrow> 'lt"
  psi_InitLookup :: "real vec \<Rightarrow> 'lt \<Rightarrow> 'lt"

text \<open>The symmetric RBM as such a machine; its exact arithmetic never yields not-a-number.\<close>

definition RbmSpinSymm_psi ::
  "('a \<Rightarrow> 'a) \<Rightarrow> 'a::real_normed_field RbmSpinSymm \<Rightarrow> ('a, 'a LookupType) WfType" where
  "RbmSpinSymm_psi lnc m =
     \<lparr>psi_LogValDiff = (\<lambda>v tochange newconf lt. Val (LogValDiff_lt lnc m v tochange newconf lt)),
      psi_UpdateLookup = UpdateLookup m,
      psi_InitLookup = InitLookup m\<rparr>"

text \<open>
  The members that change: \<open>rgen_\<close> (\<open>engine\<close>), \<open>v_\<close> (\<open>visible\<close>), the one-entry vectors
  \<open>accept_\<close> and \<open>moves_\<close>, and \<open>lt_\<close> (\<open>lookup\<close>). The machine \<open>psi_\<close> and the Hilbert space
  \<open>hilbert_\<close>, from which \<open>nv_\<close>, \<open>nstates_\<close> and \<open>localstates_\<close> are read once, are
  arguments of the operations.
\<close>

record 'lt MetropolisLocal =
  engine :: rgen
  visible :: "real vec"
  accept :: real
  moves :: real
  lookup :: 'lt

text \<open>
  The loop that draws a new local state until it differs from the current one at the
  site. It takes the sequence of values of \<open>diststate\<close> and returns what is left of it.
\<close>

function resample :: "real list \<Rightarrow> int \<Rightarrow> real \<Rightarrow> real \<Rightarrow> int list \<Rightarrow> error + real \<times> int list" where
  "resample ls hi vsi nc ks =
     (if \<bar>nc - vsi\<bar> < dbl_epsilon
      then (case uniform_int 0 hi ks of Inl e \<Rightarrow> Inl e
            | Inr (newstate, ks') \<Rightarrow> resample ls hi vsi (ls ! nat newstate) ks')
      else Inr (nc, ks))"
  by pat_completeness auto
termination
  by (relation "measure (\<lambda>(ls, hi, vsi, nc, ks). length ks)")
     (auto simp: uniform_int_def split: if_splits list.splits)

declare resample.simps [simp del]

text \<open>
  One pass through the body of the loop of \<open>Sweep\<close>, in its two parts: the proposal (the
  site \<open>tochange\<close> and the new value \<open>newconf\<close>, both vectors of one entry, with the engine
  after the draws), and the Metropolis test with what follows it.
\<close>

definition Sweep_propose :: "Spin \<Rightarrow> real vec \<Rightarrow> rgen \<Rightarrow> error + nat list \<times> real vec \<times> rgen" where
  "Sweep_propose hilb v rg =
     (case uniform_int 0 (int (nspins hilb) - 1) (distrs rg) of Inl e \<Rightarrow> Inl e
      | Inr (si, ds) \<Rightarrow>
      case uniform_int 0 (int (nstates hilb) - 1) (diststate rg) of Inl e \<Rightarrow> Inl e
      | Inr (newstate, ks) \<Rightarrow>
      case resample (localstates hilb) (int (nstates hilb) - 1) (v ! nat si)
             (localstates hilb ! nat newstate) ks of Inl e \<Rightarrow> Inl e
      | Inr (nc, ks') \<Rightarrow> Inr ([nat si], [nc], rg\<lparr>distrs := ds, diststate := ks'\<rparr>))"

definition Sweep_step ::
  "('a::{real_normed_field, banach}, 'lt) WfType \<Rightarrow> Spin \<Rightarrow> 'lt MetropolisLocal \<Rightarrow>
     error + 'lt MetropolisLocal" where
  "Sweep_step psi hilb s =
     (case Sweep_propose hilb (visible s) (engine s) of Inl e \<Rightarrow> Inl e
      | Inr (tochange, newconf, rg1) \<Rightarrow>
      let lvd = psi_LogValDiff psi (visible s) tochange newconf (lookup s);
          ratio = norm_exp lvd
      in case uniform_real (distu rg1) of Inl e \<Rightarrow> Inl e
      | Inr (u, us) \<Rightarrow>
      let s1 = (if fp_gt ratio u
                then s\<lparr>visible := UpdateConf (visible s) tochange newconf,
                       accept := accept s + 1,
                       lookup := psi_UpdateLookup psi (visible s) tochange newconf (lookup s)\<rparr>
                else s)
      in Inr (s1\<lparr>engine := rg1\<lparr>distu := us\<rparr>, moves := moves s1 + 1\<rparr>))"

fun Sweep_loop ::
  "('a::{real_normed_field, banach}, 'lt) WfType \<Rightarrow> Spin \<Rightarrow> nat \<Rightarrow> 'lt MetropolisLocal \<Rightarrow>
     error + 'lt MetropolisLocal" where
  "Sweep_loop psi hilb 0 s = Inr s"
| "Sweep_loop psi hilb (Suc n) s =
     (case Sweep_step psi hilb s of Inl e \<Rightarrow> Inl e | Inr s1 \<Rightarrow> Sweep_loop psi hilb n s1)"

definition Sweep ::
  "('a::{real_normed_field, banach}, 'lt) WfType \<Rightarrow> Spin \<Rightarrow> 'lt MetropolisLocal \<Rightarrow>
     error + 'lt MetropolisLocal" where
  "Sweep psi hilb s = Sweep_loop psi hilb (nspins hilb) s"

text \<open>Any number of calls of \<open>Sweep\<close>.\<close>

fun Sweeps ::
  "('a::{real_normed_field, banach}, 'lt) WfType \<Rightarrow> Spin \<Rightarrow> nat \<Rightarrow> 'lt MetropolisLocal \<Rightarrow>
     error + 'lt MetropolisLocal" where
  "Sweeps psi hilb 0 s = Inr s"
| "Sweeps psi hilb (Suc n) s =
     (case Sweep psi hilb s of Inl e \<Rightarrow> Inl e | Inr s1 \<Rightarrow> Sweeps psi hilb n s1)"

text \<open>
  \<open>Reset\<close>, and the sampler as \<open>Init\<close> leaves it: \<open>v_\<close> sized, the engine seeded (\<open>rg\<close> is
  the seeded engine) and \<open>Reset(true)\<close> called on an empty look-up table \<open>lt0\<close>.
\<close>

definition Reset ::
  "('a, 'lt) WfType \<Rightarrow> Spin \<Rightarrow> bool \<Rightarrow> 'lt MetropolisLocal \<Rightarrow> error + 'lt MetropolisLocal" where
  "Reset psi hilb initrandom s =
     (case (if initrandom then RandomVals hilb (visible s) (engine s)
            else Inr (visible s, engine s)) of
        Inl e \<Rightarrow> Inl e
      | Inr (v1, rg1) \<Rightarrow>
          Inr (s\<lparr>engine := rg1, visible := v1, accept := 0, moves := 0,
                 lookup := psi_InitLookup psi v1 (lookup s)\<rparr>))"

definition MetropolisLocal_Init ::
  "('a, 'lt) WfType \<Rightarrow> Spin \<Rightarrow> rgen \<Rightarrow> 'lt \<Rightarrow> error + 'lt MetropolisLocal" where
  "MetropolisLocal_Init psi hilb rg lt0 =
     Reset psi hilb True
       \<lparr>engine = rg, visible = zero_vec (nspins hilb), accept = 0, moves = 0, lookup = lt0\<rparr>"

section \<open>Loops that fill vectors and matrices\<close>

lemma fold_fill_length [simp]:
  "length (fold (\<lambda>i xs. xs[i := f i]) [0..<n] xs) = length xs"
  by (induction n) simp_all

lemma fold_fill_nth:
  "i < length xs \<Longrightarrow> fold (\<lambda>i xs. xs[i := f i]) [0..<n] xs ! i = (if i < n then f i else xs ! i)"
  by (induction n) (auto simp: nth_list_update less_Suc_eq)

text \<open>A vector written at a running counter.\<close>

lemma fold_push_snd:
  "snd (fold (\<lambda>p (xs, k). (xs[k := g p], Suc k)) [0..<n] s) = snd s + n"
  by (induction n) (simp_all add: case_prod_beta)

lemma fold_push_length:
  "length (fst (fold (\<lambda>p (xs, k). (xs[k := g p], Suc k)) [0..<n] s)) = length (fst s)"
  by (induction n) (simp_all add: case_prod_beta)

lemma fold_push_nth:
  "i < length (fst s) \<Longrightarrow>
   fst (fold (\<lambda>p (xs, k). (xs[k := g p], Suc k)) [0..<n] s) ! i =
     (if snd s \<le> i \<and> i < snd s + n then g (i - snd s) else fst s ! i)"
  by (induction n) (auto simp: case_prod_beta fold_push_snd fold_push_length nth_list_update less_Suc_eq)

text \<open>A vector filled from a running counter.\<close>

lemma fold_pull_snd:
  "snd (fold (\<lambda>p (xs, k). (xs[p := f k], Suc k)) [0..<n] s) = snd s + n"
  by (induction n) (simp_all add: case_prod_beta)

lemma fold_pull_length:
  "length (fst (fold (\<lambda>p (xs, k). (xs[p := f k], Suc k)) [0..<n] s)) = length (fst s)"
  by (induction n) (simp_all add: case_prod_beta)

lemma fold_pull_nth:
  "i < length (fst s) \<Longrightarrow>
   fst (fold (\<lambda>p (xs, k). (xs[p := f k], Suc k)) [0..<n] s) ! i =
     (if i < n then f (snd s + i) else fst s ! i)"
  by (induction n) (auto simp: case_prod_beta fold_pull_snd fold_pull_length nth_list_update less_Suc_eq)

text \<open>The same, under two nested loops.\<close>

lemma fold2_push_snd:
  "snd (fold (\<lambda>i. fold (\<lambda>j (xs, k). (xs[k := g i j], Suc k)) [0..<c]) [0..<r] s) = snd s + r * c"
  by (induction r) (simp_all add: fold_push_snd)

lemma fold2_push_length:
  "length (fst (fold (\<lambda>i. fold (\<lambda>j (xs, k). (xs[k := g i j], Suc k)) [0..<c]) [0..<r] s)) = length (fst s)"
  by (induction r) (simp_all add: fold_push_length)

lemma fold2_push_nth:
  "i < length (fst s) \<Longrightarrow>
   fst (fold (\<lambda>i. fold (\<lambda>j (xs, k). (xs[k := g i j], Suc k)) [0..<c]) [0..<r] s) ! i =
     (if snd s \<le> i \<and> i < snd s + r * c then g ((i - snd s) div c) ((i - snd s) mod c) else fst s ! i)"
proof (induction r)
  case 0 show ?case by auto
next
  case (Suc r)
  let ?t = "fold (\<lambda>i. fold (\<lambda>j (xs, k). (xs[k := g i j], Suc k)) [0..<c]) [0..<r] s"
  have k: "snd ?t = snd s + r * c" by (rule fold2_push_snd)
  have l: "length (fst ?t) = length (fst s)" by (rule fold2_push_length)
  have ih: "fst ?t ! i = (if snd s \<le> i \<and> i < snd s + r * c then g ((i - snd s) div c) ((i - snd s) mod c) else fst s ! i)"
    using Suc by simp
  have st: "fst (fold (\<lambda>j (xs, k). (xs[k := g r j], Suc k)) [0..<c] ?t) ! i =
        (if snd ?t \<le> i \<and> i < snd ?t + c then g r (i - snd ?t) else fst ?t ! i)"
    using Suc.prems l by (simp add: fold_push_nth)
  have dm: "(i - snd s) div c = r \<and> (i - snd s) mod c = i - snd ?t" if a: "snd ?t \<le> i \<and> i < snd ?t + c"
  proof -
    from a have "i - snd s = r * c + (i - snd ?t)" "i - snd ?t < c" using k by auto
    then show ?thesis by simp
  qed
  show ?case
  proof (cases "snd ?t \<le> i \<and> i < snd ?t + c")
    case True
    then show ?thesis using st dm k by simp
  next
    case False
    then show ?thesis using st ih k by auto
  qed
qed

lemma mat_set_length [simp]: "length (mat_set M i j x) = length M"
  by (simp add: mat_set_def)

lemma mat_set_row_length [simp]: "length (mat_set M i j x ! i') = length (M ! i')"
proof (cases "i < length M")
  case True
  then show ?thesis
    by (cases "i' = i") (simp_all add: mat_set_def)
next
  case False
  then show ?thesis by (simp add: mat_set_def list_update_beyond)
qed

lemma mat_set_nth:
  "i' < length M \<Longrightarrow> j' < length (M ! i') \<Longrightarrow>
   mat_set M i j x ! i' ! j' = (if i' = i \<and> j' = j then x else M ! i' ! j')"
  by (cases "i' = i") (auto simp: mat_set_def nth_list_update)

lemma mat_dims_mat_set [simp]: "mat_dims (mat_set M i j x) r c = mat_dims M r c"
  by (simp add: mat_dims_def list_all_length)

lemma mat_dims_nth: "mat_dims M r c \<Longrightarrow> i < r \<Longrightarrow> length (M ! i) = c"
  by (simp add: mat_dims_def list_all_length)

lemma mat_dims_length: "mat_dims M r c \<Longrightarrow> length M = r"
  by (simp add: mat_dims_def)

lemma mat_dims_zero_mat [simp]: "mat_dims (zero_mat r c) r c"
  by (simp add: mat_dims_def zero_mat_def list_all_length)

text \<open>A matrix filled from a running counter.\<close>

lemma fold_mpull:
  "mat_dims M r c \<Longrightarrow>
   \<exists>M'. fold (\<lambda>j (Ws, k). (mat_set Ws i j (f k), Suc k)) [0..<n] (M, k0) = (M', k0 + n) \<and>
        mat_dims M' r c \<and>
        (\<forall>i' < r. \<forall>j' < c. M' ! i' ! j' = (if i' = i \<and> j' < n then f (k0 + j') else M ! i' ! j'))"
proof (induction n)
  case 0 then show ?case by simp
next
  case (Suc n)
  then obtain M' where e: "fold (\<lambda>j (Ws, k). (mat_set Ws i j (f k), Suc k)) [0..<n] (M, k0) = (M', k0 + n)"
    and d: "mat_dims M' r c"
    and v: "\<forall>i' < r. \<forall>j' < c. M' ! i' ! j' = (if i' = i \<and> j' < n then f (k0 + j') else M ! i' ! j')"
    by blast
  show ?case
    using e d v by (auto simp: mat_set_nth mat_dims_nth mat_dims_length less_Suc_eq)
qed

lemma fold2_mpull:
  "mat_dims M r c \<Longrightarrow> n \<le> r \<Longrightarrow>
   \<exists>M'. fold (\<lambda>i. fold (\<lambda>j (Ws, k). (mat_set Ws i j (f k), Suc k)) [0..<c]) [0..<n] (M, k0)
          = (M', k0 + n * c) \<and>
        mat_dims M' r c \<and>
        (\<forall>i' < r. \<forall>j' < c. M' ! i' ! j' = (if i' < n then f (k0 + i' * c + j') else M ! i' ! j'))"
proof (induction n)
  case 0 then show ?case by simp
next
  case (Suc n)
  then obtain M' where e: "fold (\<lambda>i. fold (\<lambda>j (Ws, k). (mat_set Ws i j (f k), Suc k)) [0..<c]) [0..<n] (M, k0) = (M', k0 + n * c)"
    and d: "mat_dims M' r c"
    and v: "\<forall>i' < r. \<forall>j' < c. M' ! i' ! j' = (if i' < n then f (k0 + i' * c + j') else M ! i' ! j')"
    by auto
  from fold_mpull[OF d, of n f c "k0 + n * c"] obtain M'' where
    e2: "fold (\<lambda>j (Ws, k). (mat_set Ws n j (f k), Suc k)) [0..<c] (M', k0 + n * c) = (M'', k0 + n * c + c)"
    and d2: "mat_dims M'' r c"
    and v2: "\<forall>i' < r. \<forall>j' < c. M'' ! i' ! j' = (if i' = n \<and> j' < c then f (k0 + n * c + j') else M' ! i' ! j')"
    by blast
  show ?case
    using e e2 d2 v v2 by (auto simp: less_Suc_eq add.assoc)
qed

section \<open>Installing and reading back the reduced parameters\<close>

text \<open>
  The value of the counter \<open>k\<close> after the visible bias (\<open>ka\<close>) and after the hidden
  biases (\<open>kb\<close>), in \<open>SetParameters\<close> and \<open>GetParameters\<close> alike.
\<close>

definition ka :: "'a RbmSpinSymm \<Rightarrow> nat" where "ka m = (if usea m then 1 else 0)"
definition kb :: "'a RbmSpinSymm \<Rightarrow> nat" where "kb m = ka m + (if useb m then alpha m else 0)"

lemma SetBareParameters_keeps [simp]:
  "Wsymm (SetBareParameters m) = Wsymm m" "asymm (SetBareParameters m) = asymm m"
  "bsymm (SetBareParameters m) = bsymm m" "npar (SetBareParameters m) = npar m"
  "usea (SetBareParameters m) = usea m" "useb (SetBareParameters m) = useb m"
  "alpha (SetBareParameters m) = alpha m" "nv (SetBareParameters m) = nv m"
  "nh (SetBareParameters m) = nh m" "permsize (SetBareParameters m) = permsize m"
  "permtable (SetBareParameters m) = permtable m" "nbarepar (SetBareParameters m) = nbarepar m"
  "DerMatSymm (SetBareParameters m) = DerMatSymm m"
  by (simp_all add: SetBareParameters_def Let_def)

lemma SetParameters_keeps [simp]:
  "npar (SetParameters m p) = npar m"
  "usea (SetParameters m p) = usea m" "useb (SetParameters m p) = useb m"
  "alpha (SetParameters m p) = alpha m" "nv (SetParameters m p) = nv m"
  "nh (SetParameters m p) = nh m" "permsize (SetParameters m p) = permsize m"
  "permtable (SetParameters m p) = permtable m" "nbarepar (SetParameters m p) = nbarepar m"
  "DerMatSymm (SetParameters m p) = DerMatSymm m"
  by (simp_all add: SetParameters_def Let_def case_prod_beta)

lemma SetParameters_asymm: "asymm (SetParameters m p) = (if usea m then p ! 0 else 0)"
  by (simp add: SetParameters_def Let_def case_prod_beta)

lemma SetParameters_bsymm_length:
  "length (bsymm m) = alpha m \<Longrightarrow> length (bsymm (SetParameters m p)) = alpha m"
  by (simp add: SetParameters_def Let_def case_prod_beta fold_pull_length zero_vec_def)

lemma SetParameters_bsymm:
  "length (bsymm m) = alpha m \<Longrightarrow> f < alpha m \<Longrightarrow>
   bsymm (SetParameters m p) ! f = (if useb m then p ! (ka m + f) else 0)"
  by (simp add: SetParameters_def Let_def case_prod_beta fold_pull_nth zero_vec_def ka_def)

lemma SetParameters_Wsymm:
  assumes "mat_dims (Wsymm m) (nv m) (alpha m)"
  shows "mat_dims (Wsymm (SetParameters m p)) (nv m) (alpha m) \<and>
    (\<forall>i < nv m. \<forall>j < alpha m. Wsymm (SetParameters m p) ! i ! j = p ! (kb m + i * alpha m + j))"
proof -
  let ?k2 = "kb m"
  from fold2_mpull[OF assms, of "nv m" "\<lambda>k. p ! k" ?k2] obtain M' where
    e: "fold (\<lambda>i. fold (\<lambda>j (Ws, k). (mat_set Ws i j (p ! k), Suc k)) [0..<alpha m]) [0..<nv m] (Wsymm m, ?k2)
          = (M', ?k2 + nv m * alpha m)"
    and d: "mat_dims M' (nv m) (alpha m)"
    and v: "\<forall>i' < nv m. \<forall>j' < alpha m. M' ! i' ! j' = (if i' < nv m then p ! (?k2 + i' * alpha m + j') else Wsymm m ! i' ! j')"
    by auto
  have "Wsymm (SetParameters m p) = M'"
    using e by (cases "usea m"; cases "useb m")
      (simp_all add: SetParameters_def Let_def case_prod_beta fold_pull_snd kb_def ka_def)
  then show ?thesis using d v by simp
qed

lemma GetParameters_length: "length (GetParameters m) = npar m"
  by (simp add: GetParameters_def Let_def case_prod_beta fold2_push_length fold_push_length zero_vec_def)

lemma GetParameters_nth:
  assumes "idx < npar m"
  shows "GetParameters m ! idx =
    (if kb m \<le> idx \<and> idx < kb m + nv m * alpha m
       then Wsymm m ! ((idx - kb m) div alpha m) ! ((idx - kb m) mod alpha m)
     else if useb m \<and> ka m \<le> idx \<and> idx < ka m + alpha m then bsymm m ! (idx - ka m)
     else if usea m \<and> idx = 0 then asymm m else 0)"
  using assms
  by (simp add: GetParameters_def Let_def case_prod_beta fold2_push_length fold_push_length
      fold2_push_nth fold_push_nth fold_push_snd zero_vec_def ka_def kb_def nth_list_update)

text \<open>
  Claim C10. For every symmetric RBM whose members have the sizes set by \<open>Init\<close> and
  every parameter vector \<open>p\<close> of length \<open>Npar()\<close>, \<open>SetParameters(p)\<close> followed by
  \<open>GetParameters()\<close> returns exactly \<open>p\<close>, whatever the flags \<open>usea\<close> and \<open>useb\<close> are.
\<close>

theorem GetParameters_SetParameters:
  assumes ok: "dims_ok m" and len: "length p = npar m"
  shows "GetParameters (SetParameters m p) = p"
proof (rule nth_equalityI)
  show "length (GetParameters (SetParameters m p)) = length p"
    by (simp add: GetParameters_length len)
next
  fix idx assume "idx < length (GetParameters (SetParameters m p))"
  then have idx: "idx < npar m" by (simp add: GetParameters_length)
  let ?m = "SetParameters m p"
  have np: "npar m = kb m + nv m * alpha m"
    using ok unfolding dims_ok_def kb_def ka_def by (elim conjE) (simp split: if_splits)
  have kk: "ka ?m = ka m" "kb ?m = kb m" by (simp_all add: ka_def kb_def)
  have bl: "length (bsymm m) = alpha m" and wd: "mat_dims (Wsymm m) (nv m) (alpha m)"
    using ok by (simp_all add: dims_ok_def)
  consider (W) "kb m \<le> idx" | (B) "idx < kb m" "ka m \<le> idx" | (A) "idx < ka m" by linarith
  then show "GetParameters ?m ! idx = p ! idx"
  proof cases
    case W
    define d where "d = idx - kb m"
    have d: "d < nv m * alpha m" "idx = kb m + d" using W idx np by (simp_all add: d_def)
    then have a0: "0 < alpha m" by (cases "alpha m") auto
    have "d div alpha m < nv m" using d a0 by (simp add: less_mult_imp_div_less)
    moreover have "d mod alpha m < alpha m" using a0 by simp
    ultimately have "Wsymm ?m ! (d div alpha m) ! (d mod alpha m) = p ! (kb m + d div alpha m * alpha m + d mod alpha m)"
      using SetParameters_Wsymm[OF wd, of p] by blast
    then show ?thesis using idx W d np by (simp add: GetParameters_nth kk add.assoc)
  next
    case B
    then have ub: "useb m" by (auto simp: kb_def split: if_splits)
    have "idx - ka m < alpha m" using B ub by (simp add: kb_def)
    then have "bsymm ?m ! (idx - ka m) = p ! (ka m + (idx - ka m))"
      using SetParameters_bsymm[OF bl, of "idx - ka m" p] ub by simp
    then show ?thesis using idx B ub by (simp add: GetParameters_nth kk kb_def)
  next
    case A
    then have "usea m" "idx = 0" by (auto simp: ka_def split: if_splits)
    then show ?thesis using idx A by (simp add: GetParameters_nth kk kb_def ka_def SetParameters_asymm)
  qed
qed

lemma dims_ok_Init: "dims_ok (Init nv0 alpha0 usea0 useb0 pt)"
  by (simp add: Init_def Let_def case_prod_beta dims_ok_def zero_vec_def)

theorem GetParameters_SetParameters_witness:
  "dims_ok (Init 2 1 True True [[0, 1], [1, 0]] :: complex RbmSpinSymm) \<and>
   length [1, 2, 3, 4 :: complex] = npar (Init 2 1 True True [[0, 1], [1, 0]] :: complex RbmSpinSymm) \<and>
   GetParameters (SetParameters (Init 2 1 True True [[0, 1], [1, 0]]) [1, 2, 3, 4 :: complex]) = [1, 2, 3, 4]"
proof -
  have d: "dims_ok (Init 2 1 True True [[0, 1], [1, 0]] :: complex RbmSpinSymm)"
    by (rule dims_ok_Init)
  have l: "length [1, 2, 3, 4 :: complex] = npar (Init 2 1 True True [[0, 1], [1, 0]] :: complex RbmSpinSymm)"
    by (simp add: Init_def Let_def case_prod_beta)
  show ?thesis using d l GetParameters_SetParameters[OF d l] by simp
qed

section \<open>Expanding the reduced parameters\<close>

lemma fold_mfill_dims [simp]:
  "mat_dims (fold (\<lambda>j Wm. mat_set Wm i j (g j)) [0..<n] M) r c = mat_dims M r c"
  by (induction n) simp_all

lemma fold_mfill_nth:
  "mat_dims M r c \<Longrightarrow> i' < r \<Longrightarrow> j' < c \<Longrightarrow>
   fold (\<lambda>j Wm. mat_set Wm i j (g j)) [0..<n] M ! i' ! j' =
     (if i' = i \<and> j' < n then g j' else M ! i' ! j')"
  by (induction n) (auto simp: mat_set_nth mat_dims_nth mat_dims_length less_Suc_eq)

lemma fold2_mfill_dims [simp]:
  "mat_dims (fold (\<lambda>i. fold (\<lambda>j Wm. mat_set Wm i j (g i j)) [0..<c']) [0..<n] M) r c = mat_dims M r c"
  by (induction n) simp_all

lemma fold2_mfill_nth:
  "mat_dims M r c \<Longrightarrow> i' < r \<Longrightarrow> j' < c \<Longrightarrow>
   fold (\<lambda>i. fold (\<lambda>j Wm. mat_set Wm i j (g i j)) [0..<c]) [0..<n] M ! i' ! j' =
     (if i' < n then g i' j' else M ! i' ! j')"
  by (induction n) (auto simp: fold_mfill_nth less_Suc_eq)

lemma SetBareParameters_abare:
  "length (abare m) = nv m \<Longrightarrow> i < nv m \<Longrightarrow> abare (SetBareParameters m) ! i = asymm m"
  by (simp add: SetBareParameters_def Let_def fold_fill_nth)

lemma SetBareParameters_bbare:
  "length (bbare m) = nh m \<Longrightarrow> j < nh m \<Longrightarrow>
   bbare (SetBareParameters m) ! j = bsymm m ! (j div permsize m)"
  by (simp add: SetBareParameters_def Let_def fold_fill_nth)

lemma SetBareParameters_Wbare:
  "mat_dims (Wbare m) (nv m) (nh m) \<Longrightarrow> i < nv m \<Longrightarrow> j < nh m \<Longrightarrow>
   Wbare (SetBareParameters m) ! i ! j =
     Wsymm m ! (permtable m ! i ! (j mod permsize m)) ! (j div permsize m)"
  by (simp add: SetBareParameters_def Let_def fold2_mfill_nth)

lemma dims_ok_SetBareParameters: "dims_ok m \<Longrightarrow> dims_ok (SetBareParameters m)"
  unfolding dims_ok_def
  by (elim conjE, intro conjI) (simp_all add: SetBareParameters_def Let_def split: if_splits)

lemma dims_ok_SetParameters:
  assumes "dims_ok m"
  shows "dims_ok (SetParameters m p)"
proof -
  have wd: "mat_dims (Wsymm m) (nv m) (alpha m)" and bl: "length (bsymm m) = alpha m"
    using assms unfolding dims_ok_def by blast+
  have w: "mat_dims (Wsymm (SetParameters m p)) (nv m) (alpha m)"
    using SetParameters_Wsymm[OF wd] by blast
  have b: "length (bsymm (SetParameters m p)) = alpha m"
    using bl by (rule SetParameters_bsymm_length)
  have r: "mat_dims (Wbare (SetParameters m p)) (nv m) (nh m)"
     "length (abare (SetParameters m p)) = nv m" "length (bbare (SetParameters m p)) = nh m"
    using assms unfolding dims_ok_def
    by (simp_all add: SetParameters_def SetBareParameters_def Let_def case_prod_beta)
  show ?thesis
    using assms w b r unfolding dims_ok_def
    by (elim conjE, intro conjI) (simp_all split: if_splits)
qed

lemma upt_small: "[0..<1] = [0]" "[0..<2] = [0, 1]" "[0..<3] = [0, 1, 2]" "[0..<4] = [0, 1, 2, 3]"
  by (simp_all add: upt_rec)

lemma replicate_small: "replicate 2 x = [x, x]" "replicate 4 x = [x, x, x, x]"
  by (simp_all add: numeral_eq_Suc)

text \<open>
  A small machine for the concrete evaluations: two sites on a ring (the translation table
  of the periodic chain of length 2), one feature channel, \<open>asymm = 1\<close>, all other
  parameters zero.
\<close>

definition rbm_ex :: "real RbmSpinSymm" where
  "rbm_ex = SetParameters (Init 2 1 True True [[0, 1], [1, 0]]) [1, 0, 0, 0]"

lemma Init_fields [simp]:
  "permtable (Init nv0 alpha0 usea0 useb0 pt) = pt"
  "permsize (Init nv0 alpha0 usea0 useb0 pt) = length pt"
  "nv (Init nv0 alpha0 usea0 useb0 pt) = nv0"
  "alpha (Init nv0 alpha0 usea0 useb0 pt) = alpha0"
  "nh (Init nv0 alpha0 usea0 useb0 pt) = alpha0 * length pt"
  "Wbare (Init nv0 alpha0 usea0 useb0 pt) = zero_mat nv0 (alpha0 * length pt)"
  "Wsymm (Init nv0 alpha0 usea0 useb0 pt) = zero_mat nv0 alpha0"
  "abare (Init nv0 alpha0 usea0 useb0 pt) = zero_vec nv0"
  "bbare (Init nv0 alpha0 usea0 useb0 pt) = zero_vec (alpha0 * length pt)"
  "bsymm (Init nv0 alpha0 usea0 useb0 pt) = zero_vec alpha0"
  "asymm (Init nv0 alpha0 usea0 useb0 pt) = 0"
  "usea (Init nv0 alpha0 usea0 useb0 pt) = usea0"
  "useb (Init nv0 alpha0 usea0 useb0 pt) = useb0"
  by (simp_all add: Init_def Let_def case_prod_beta)

lemma rbm_ex_fields:
  "abare rbm_ex = [1,1]" "bbare rbm_ex = [0,0]" "Wbare rbm_ex = [[0,0],[0,0]]" "nv rbm_ex = 2" "nh rbm_ex = 2"
  by (simp_all add: rbm_ex_def SetParameters_def SetBareParameters_def Let_def zero_vec_def zero_mat_def mat_set_def
      numeral_2_eq_2 case_prod_beta)

text \<open>
  The same ring with weights that are not zero: \<open>asymm = 1\<close>, \<open>bsymm = [2]\<close> and
  \<open>Wsymm = [[3], [4]]\<close>.
\<close>

definition rbm_ex3 :: "real RbmSpinSymm" where
  "rbm_ex3 = SetParameters (Init 2 1 True True [[0, 1], [1, 0]]) [1, 2, 3, 4]"

lemma rbm_ex3_fields:
  "abare rbm_ex3 = [1, 1]" "bbare rbm_ex3 = [2, 2]" "Wbare rbm_ex3 = [[3, 4], [4, 3]]"
  "nv rbm_ex3 = 2" "nh rbm_ex3 = 2"
  by (simp_all add: rbm_ex3_def SetParameters_def SetBareParameters_def Let_def zero_vec_def
      zero_mat_def mat_set_def case_prod_beta numeral_2_eq_2[symmetric] upt_small replicate_small)

section \<open>The log-ratio from the look-up table\<close>

lemma UpdateConf_fold_aux:
  "i0 + length tc \<le> length nc \<Longrightarrow>
   fst (fold (\<lambda>sf (v1, i). (v1[sf := nc ! i], Suc i)) tc (v, i0)) =
   fold (\<lambda>(sf, x) v1. v1[sf := x]) (zip tc (drop i0 nc)) v"
proof (induction tc arbitrary: v i0)
  case Nil show ?case by simp
next
  case (Cons sf tc)
  then have lt: "i0 < length nc" by simp
  have d: "drop i0 nc = nc ! i0 # drop (Suc i0) nc" using lt by (simp add: Cons_nth_drop_Suc)
  show ?case using Cons by (simp add: d)
qed

lemma UpdateConf_zip:
  "length tc \<le> length nc \<Longrightarrow> UpdateConf v tc nc = fold (\<lambda>(sf, x) v1. v1[sf := x]) (zip tc nc) v"
  using UpdateConf_fold_aux[of 0 tc nc v] by (simp add: UpdateConf_def)

lemma UpdateConf_length [simp]: "length (UpdateConf v tc nc) = length v"
proof -
  have "length (fst (fold (\<lambda>sf (v1, i). (v1[sf := nc ! i], Suc i)) tc s)) = length (fst s)" for s
    by (induction tc arbitrary: s) (simp_all add: case_prod_beta)
  then show ?thesis by (simp add: UpdateConf_def)
qed

lemma fold_index_zip:
  "length tc = length nc \<Longrightarrow>
   fold (\<lambda>s. g (tc ! s) (nc ! s)) [0..<length tc] = fold (\<lambda>(sf, x). g sf x) (zip tc nc)"
proof -
  assume l: "length tc = length nc"
  have "zip tc nc = map (\<lambda>s. (tc ! s, nc ! s)) [0..<length tc]"
    using l by (intro nth_equalityI) simp_all
  then show ?thesis by (simp add: fold_map comp_def)
qed

text \<open>A sum over the sites after one entry of the configuration is overwritten.\<close>

lemma sum_list_update_one:
  fixes c :: "nat \<Rightarrow> 'a::real_normed_field"
  assumes "sf < n" "length v = n"
  shows "(\<Sum>i\<leftarrow>[0..<n]. c i * of_real (v[sf := x] ! i)) =
         (\<Sum>i\<leftarrow>[0..<n]. c i * of_real (v ! i)) + c sf * of_real (x - v ! sf)"
proof -
  have "(\<Sum>i\<leftarrow>[0..<n]. c i * of_real (v[sf := x] ! i)) = (\<Sum>i = 0..<n. c i * of_real (v[sf := x] ! i))"
    by (simp add: interv_sum_list_conv_sum_set_nat)
  also have "\<dots> = (\<Sum>i = 0..<n. c i * of_real (v ! i) + (if i = sf then c sf * of_real (x - v ! sf) else 0))"
    using assms by (intro sum.cong) (auto simp: nth_list_update algebra_simps)
  also have "\<dots> = (\<Sum>i = 0..<n. c i * of_real (v ! i)) + c sf * of_real (x - v ! sf)"
    using assms by (simp add: sum.distrib)
  finally show ?thesis by (simp add: interv_sum_list_conv_sum_set_nat)
qed

lemma fold_update_other:
  "sf \<notin> fst ` set zs \<Longrightarrow> fold (\<lambda>(sf, x) v1. v1[sf := x]) zs v ! sf = v ! sf"
  by (induction zs arbitrary: v) (auto simp: case_prod_beta)

lemma fold_update_length [simp]:
  "length (fold (\<lambda>(sf, x) v1. v1[sf := x]) zs v) = length v"
  by (induction zs arbitrary: v) (auto simp: case_prod_beta)

lemma sum_list_moved:
  fixes c :: "nat \<Rightarrow> 'a::real_normed_field"
  assumes "distinct (map fst zs)" "\<forall>sf \<in> fst ` set zs. sf < n" "length v = n"
  shows "(\<Sum>i\<leftarrow>[0..<n]. c i * of_real (fold (\<lambda>(sf, x) v1. v1[sf := x]) zs v ! i)) =
         (\<Sum>i\<leftarrow>[0..<n]. c i * of_real (v ! i)) + (\<Sum>(sf, x)\<leftarrow>zs. c sf * of_real (x - v ! sf))"
  using assms
proof (induction zs arbitrary: v)
  case Nil show ?case by simp
next
  case (Cons z zs)
  obtain sf x where z: "z = (sf, x)" by (cases z)
  let ?v1 = "v[sf := x]"
  have sf: "sf < n" "sf \<notin> fst ` set zs" using Cons.prems z by auto
  have ih: "(\<Sum>i\<leftarrow>[0..<n]. c i * of_real (fold (\<lambda>(sf, x) v1. v1[sf := x]) zs ?v1 ! i)) =
         (\<Sum>i\<leftarrow>[0..<n]. c i * of_real (?v1 ! i)) + (\<Sum>(sf, x)\<leftarrow>zs. c sf * of_real (x - ?v1 ! sf))"
    using Cons.prems by (intro Cons.IH) auto
  have same: "(\<Sum>(sf', x')\<leftarrow>zs. c sf' * of_real (x' - ?v1 ! sf')) = (\<Sum>(sf', x')\<leftarrow>zs. c sf' * of_real (x' - v ! sf'))"
  proof (rule arg_cong[where f = sum_list], rule map_cong[OF refl])
    fix y assume "y \<in> set zs"
    then have "fst y \<noteq> sf" using sf by auto
    then show "(case y of (sf', x') \<Rightarrow> c sf' * of_real (x' - ?v1 ! sf')) = (case y of (sf', x') \<Rightarrow> c sf' * of_real (x' - v ! sf'))"
      by (cases y) simp
  qed
  show ?case
    using ih same sum_list_update_one[OF sf(1) Cons.prems(3), of c x] by (simp add: z add.assoc)
qed

lemma InitLookup_V0: "InitLookup m v lt ! 0 = thetas m v"
  by (simp add: InitLookup_def Let_def)

lemma length_thetas [simp]: "length (thetas m v) = nh m"
  by (simp add: thetas_def)

lemma add_row_eq:
  "length th = n \<Longrightarrow> length row = n \<Longrightarrow>
   add_row th row d = map (\<lambda>j. th ! j + row ! j * of_real d) [0..<n]"
  by (intro nth_equalityI) (simp_all add: add_row_def)

lemma LogValDiff_loop:
  fixes th0 :: "'a::real_normed_field vec"
  assumes "length th0 = n" "\<forall>sf \<in> fst ` set zs. length (Wm ! sf) = n"
  shows "fold (\<lambda>(sf, x) (d, th). (d + av ! sf * of_real (x - v ! sf), add_row th (Wm ! sf) (x - v ! sf)))
           zs (d0, th0) =
         (d0 + (\<Sum>(sf, x)\<leftarrow>zs. av ! sf * of_real (x - v ! sf)),
          map (\<lambda>j. th0 ! j + (\<Sum>(sf, x)\<leftarrow>zs. Wm ! sf ! j * of_real (x - v ! sf))) [0..<n])"
  using assms
proof (induction zs arbitrary: d0 th0)
  case Nil
  then show ?case by (auto intro: nth_equalityI)
next
  case (Cons z zs)
  obtain sf x where z: "z = (sf, x)" by (cases z)
  have r: "length (Wm ! sf) = n" using Cons.prems z by simp
  let ?th1 = "add_row th0 (Wm ! sf) (x - v ! sf)"
  have th1: "?th1 = map (\<lambda>j. th0 ! j + Wm ! sf ! j * of_real (x - v ! sf)) [0..<n]"
    using Cons.prems(1) r by (rule add_row_eq)
  then have l1: "length ?th1 = n" by simp
  have "fold (\<lambda>(sf, x) (d, th). (d + av ! sf * of_real (x - v ! sf), add_row th (Wm ! sf) (x - v ! sf)))
           zs (d0 + av ! sf * of_real (x - v ! sf), ?th1) =
         (d0 + av ! sf * of_real (x - v ! sf) + (\<Sum>(sf, x)\<leftarrow>zs. av ! sf * of_real (x - v ! sf)),
          map (\<lambda>j. ?th1 ! j + (\<Sum>(sf, x)\<leftarrow>zs. Wm ! sf ! j * of_real (x - v ! sf))) [0..<n])"
    using Cons.prems by (intro Cons.IH[OF l1]) simp
  moreover have "map (\<lambda>j. ?th1 ! j + (\<Sum>(sf, x)\<leftarrow>zs. Wm ! sf ! j * of_real (x - v ! sf))) [0..<n]
     = map (\<lambda>j. th0 ! j + (\<Sum>(sf, x)\<leftarrow>z # zs. Wm ! sf ! j * of_real (x - v ! sf))) [0..<n]"
    by (simp add: th1 z add.assoc)
  ultimately show ?case by (simp add: z add.assoc)
qed

text \<open>
  A move lists each site it changes once, inside the configuration, with one new value
  per site.
\<close>

definition move_ok :: "nat \<Rightarrow> nat list \<Rightarrow> real vec \<Rightarrow> bool" where
  "move_ok n tochange newconf \<longleftrightarrow>
     length newconf = length tochange \<and> distinct tochange \<and> list_all (\<lambda>sf. sf < n) tochange"

text \<open>
  Claim C6. For every symmetric RBM, every configuration \<open>v\<close>, a look-up table freshly
  initialised by \<open>InitLookup(v, lt)\<close> and every proposed move \<open>(sites, new_vals)\<close>,
  \<open>LogValDiff(v, sites, new_vals, lt)\<close> equals \<open>LogVal(v') - LogVal(v)\<close>, where \<open>v'\<close> is
  \<open>v\<close> with the listed sites overwritten by the new values. A move is the list of the
  sites where \<open>v'\<close> differs from \<open>v\<close>, each listed once (\<open>move_ok\<close>); the moves that the
  sampler proposes are of this kind. The equality is exact and holds for every function
  \<open>lnc\<close> in the place of \<open>lncosh\<close>.
\<close>

theorem LogValDiff_lt_consistent:
  fixes m :: "'a::real_normed_field RbmSpinSymm"
  assumes ok: "dims_ok m" and lv: "length v = nv m" and mv: "move_ok (nv m) tochange newconf"
  shows "LogValDiff_lt lnc m v tochange newconf (InitLookup m v lt) =
         LogVal lnc m (UpdateConf v tochange newconf) - LogVal lnc m v"
proof (cases "tochange = []")
  case True
  then show ?thesis by (simp add: LogValDiff_lt_def UpdateConf_def)
next
  case False
  let ?zs = "zip tochange newconf"
  let ?v' = "UpdateConf v tochange newconf"
  have len: "length newconf = length tochange" and dist: "distinct tochange"
    and rng: "\<forall>sf \<in> set tochange. sf < nv m"
    using mv by (simp_all add: move_ok_def list_all_iff)
  have fz: "map fst ?zs = tochange" using len by simp
  have dz: "distinct (map fst ?zs)" using dist fz by simp
  have rz: "\<forall>sf \<in> fst ` set ?zs. sf < nv m"
    using rng fz by (metis set_map)
  have wd: "mat_dims (Wbare m) (nv m) (nh m)" using ok unfolding dims_ok_def by blast
  have rows: "\<forall>sf \<in> fst ` set ?zs. length (Wbare m ! sf) = nh m"
    using rz wd by (auto simp: mat_dims_nth)
  have v': "?v' = fold (\<lambda>(sf, x) v1. v1[sf := x]) ?zs v"
    using len by (simp add: UpdateConf_zip)
  have moved: "(\<Sum>i\<leftarrow>[0..<nv m]. c i * of_real (?v' ! i)) =
         (\<Sum>i\<leftarrow>[0..<nv m]. c i * of_real (v ! i)) + (\<Sum>(sf, x)\<leftarrow>?zs. c sf * of_real (x - v ! sf))"
    for c :: "nat \<Rightarrow> 'a"
    unfolding v' using dz rz lv by (rule sum_list_moved)
  have th': "thetas m ?v' =
       map (\<lambda>j. thetas m v ! j + (\<Sum>(sf, x)\<leftarrow>?zs. Wbare m ! sf ! j * of_real (x - v ! sf))) [0..<nh m]"
    by (intro nth_equalityI) (simp_all add: thetas_def moved[of "\<lambda>i. Wbare m ! i ! j" for j] add.commute add.left_commute)
  have dot: "(\<Sum>i\<leftarrow>[0..<nv m]. of_real (?v' ! i) * abare m ! i) =
       (\<Sum>i\<leftarrow>[0..<nv m]. of_real (v ! i) * abare m ! i) + (\<Sum>(sf, x)\<leftarrow>?zs. abare m ! sf * of_real (x - v ! sf))"
    using moved[of "\<lambda>i. abare m ! i"] by (simp add: mult.commute)
  have loop: "fold (\<lambda>s (logvaldiff, thetasnew). let sf = tochange ! s
                              in (logvaldiff + abare m ! sf * of_real (newconf ! s - v ! sf),
                                  add_row thetasnew (Wbare m ! sf) (newconf ! s - v ! sf)))
                        [0..<length tochange] (0, thetas m v) =
     (0 + (\<Sum>(sf, x)\<leftarrow>?zs. abare m ! sf * of_real (x - v ! sf)),
          map (\<lambda>j. thetas m v ! j + (\<Sum>(sf, x)\<leftarrow>?zs. Wbare m ! sf ! j * of_real (x - v ! sf))) [0..<nh m])"
  proof -
    have "fold (\<lambda>s (logvaldiff, thetasnew). let sf = tochange ! s
                              in (logvaldiff + abare m ! sf * of_real (newconf ! s - v ! sf),
                                  add_row thetasnew (Wbare m ! sf) (newconf ! s - v ! sf)))
                        [0..<length tochange] =
          fold (\<lambda>(sf, x) (d, th). (d + abare m ! sf * of_real (x - v ! sf), add_row th (Wbare m ! sf) (x - v ! sf))) ?zs"
      using fold_index_zip[OF len[symmetric], of "\<lambda>sf x (d, th). (d + abare m ! sf * of_real (x - v ! sf), add_row th (Wbare m ! sf) (x - v ! sf))"]
      by (simp add: Let_def)
    then show ?thesis
      using LogValDiff_loop[OF length_thetas rows, of "abare m" v 0 v] by simp
  qed
  show ?thesis
    using False
    by (simp add: LogValDiff_lt_def LogVal_def Let_def InitLookup_V0 loop[unfolded Let_def] th'[symmetric] dot
        del: of_real_diff)
qed

text \<open>
  A move of both sites on the machine with weights: the look-up table holds the
  hidden-unit arguments \<open>[1, 3]\<close> of \<open>v = [1, -1]\<close>, the move leads to \<open>[-5, -5]\<close>, and the
  log-ratio is \<open>2 lncosh 5 - lncosh 1 - lncosh 3 - 2\<close>.
\<close>

theorem LogValDiff_lt_consistent_witness:
  "dims_ok rbm_ex3 \<and> length [1, -1 :: real] = nv rbm_ex3 \<and>
   move_ok (nv rbm_ex3) [0, 1] [-1, -1] \<and>
   InitLookup rbm_ex3 [1, -1] [] = [[1, 3]] \<and>
   LogValDiff_lt lncosh rbm_ex3 [1, -1] [0, 1] [-1, -1] (InitLookup rbm_ex3 [1, -1] []) =
     LogVal lncosh rbm_ex3 (UpdateConf [1, -1] [0, 1] [-1, -1]) - LogVal lncosh rbm_ex3 [1, -1] \<and>
   LogValDiff_lt lncosh rbm_ex3 [1, -1] [0, 1] [-1, -1] (InitLookup rbm_ex3 [1, -1] []) =
     2 * lncosh 5 - lncosh 1 - lncosh 3 - 2"
proof -
  have d: "dims_ok rbm_ex3"
    unfolding rbm_ex3_def by (rule dims_ok_SetParameters[OF dims_ok_Init])
  have l: "length [1, -1 :: real] = nv rbm_ex3" by (simp add: rbm_ex3_fields)
  have mv: "move_ok (nv rbm_ex3) [0, 1] [-1, -1]" by (simp add: move_ok_def rbm_ex3_fields)
  have lt: "InitLookup rbm_ex3 [1, -1] [] = [[1, 3]]"
    by (simp add: InitLookup_def thetas_def rbm_ex3_fields zero_vec_def upt_small)
  have m5: "lncosh (- 5) = lncosh 5" by (simp add: lncosh_def)
  have val: "LogValDiff_lt lncosh rbm_ex3 [1, -1] [0, 1] [-1, -1] [[1, 3]] =
     2 * lncosh 5 - lncosh 1 - lncosh 3 - 2"
    by (simp add: LogValDiff_lt_def rbm_ex3_fields Let_def add_row_def upt_small m5)
  show ?thesis
    using d l mv lt val LogValDiff_lt_consistent[OF d l mv, of lncosh "[]"] by simp
qed

section \<open>The layout of the expanded parameters\<close>

text \<open>
  The tables for which \<open>SetBareParameters\<close> and \<open>Init\<close> read \<open>permtable_[i][j%permsize_]\<close>
  inside the bounds for every site \<open>i\<close>: as many rows as sites, each row with one site
  per site.
\<close>

definition table_ok :: "nat \<Rightarrow> nat list list \<Rightarrow> bool" where
  "table_ok n pt \<longleftrightarrow>
     length pt = n \<and> list_all (\<lambda>row. length row = n \<and> list_all (\<lambda>x. x < n) row) pt"

text \<open>The same ring with two feature channels and hidden biases 10 and 20.\<close>

definition rbm_ex2 :: "real RbmSpinSymm" where
  "rbm_ex2 = SetParameters (Init 2 2 True True [[0, 1], [1, 0]]) [0, 10, 20, 0, 0, 0, 0]"

text \<open>
  Claim C2. For the symmetric RBM with a permutation table of \<open>G = N\<close> rows and \<open>alpha\<close>
  feature channels, \<open>SetParameters\<close> leaves the expanded parameters
  \<open>a_i = a_sym\<close>, \<open>b_(G*f + g) = b_sym[f]\<close> and \<open>W_(i, G*f + g) = W_sym[P[i][g], f]\<close>,
  for every site \<open>i\<close>, every \<open>g\<close> in \<open>[0,G)\<close> and every channel \<open>f\<close> in \<open>[0,alpha)\<close>:
  the hidden units of one channel are adjacent, and the table is read at \<open>[i][g]\<close>.
\<close>

theorem SetParameters_expansion:
  fixes m :: "'a::zero RbmSpinSymm"
  assumes ok: "dims_ok m" and tab: "table_ok (nv m) (permtable m)"
    and i: "i < nv m" and g: "g < permsize m" and f: "f < alpha m"
  shows "abare (SetParameters m p) ! i = asymm (SetParameters m p) \<and>
         bbare (SetParameters m p) ! (permsize m * f + g) = bsymm (SetParameters m p) ! f \<and>
         Wbare (SetParameters m p) ! i ! (permsize m * f + g) =
           Wsymm (SetParameters m p) ! (permtable m ! i ! g) ! f"
proof -
  define m1 where "m1 = m\<lparr>Wsymm := Wsymm (SetParameters m p), asymm := asymm (SetParameters m p),
     bsymm := bsymm (SetParameters m p)\<rparr>"
  have e: "SetParameters m p = SetBareParameters m1"
    by (simp add: m1_def SetParameters_def Let_def case_prod_beta)
  have la: "length (abare m1) = nv m1" and lb: "length (bbare m1) = nh m1"
    and wd: "mat_dims (Wbare m1) (nv m1) (nh m1)" and nhm: "alpha m * permsize m = nh m"
    using ok unfolding dims_ok_def m1_def by simp_all
  have j: "permsize m * f + g < nh m1"
  proof -
    have "permsize m * f + g < permsize m * Suc f" using g by simp
    also have "\<dots> \<le> permsize m * alpha m" using f by (intro mult_le_mono2) simp
    finally show ?thesis using nhm by (simp add: m1_def mult.commute)
  qed
  have dv: "(permsize m * f + g) div permsize m = f" "(permsize m * f + g) mod permsize m = g"
    using g by simp_all
  have i1: "i < nv m1" using i by (simp add: m1_def)
  have "abare (SetBareParameters m1) ! i = asymm m1"
    using la i1 by (rule SetBareParameters_abare)
  moreover have "bbare (SetBareParameters m1) ! (permsize m * f + g) = bsymm m1 ! f"
    using SetBareParameters_bbare[OF lb j] dv by (simp add: m1_def)
  moreover have "Wbare (SetBareParameters m1) ! i ! (permsize m * f + g) = Wsymm m1 ! (permtable m ! i ! g) ! f"
    using SetBareParameters_Wbare[OF wd i1 j] dv by (simp add: m1_def)
  ultimately show ?thesis by (simp add: e)
qed

lemma rbm_ex2_fields:
  "alpha rbm_ex2 = 2" "bbare rbm_ex2 = [10, 10, 20, 20]" "bsymm rbm_ex2 = [10, 20]"
  by (simp_all add: rbm_ex2_def SetParameters_def SetBareParameters_def Let_def zero_vec_def
      zero_mat_def mat_set_def case_prod_beta numeral_2_eq_2[symmetric] upt_small replicate_small)

text \<open>
  With two channels on two sites the hidden biases are \<open>[10, 10, 20, 20]\<close>: the unit
  \<open>alpha*g + f\<close> for \<open>g = 0\<close>, \<open>f = 1\<close> carries \<open>b_sym[0]\<close>, not \<open>b_sym[1]\<close>.
\<close>

theorem SetParameters_spec_layout_fails:
  "bbare rbm_ex2 ! (alpha rbm_ex2 * 0 + 1) \<noteq> bsymm rbm_ex2 ! 1"
  by (simp add: rbm_ex2_fields)

theorem SetParameters_expansion_witness:
  "dims_ok rbm_ex \<and> table_ok (nv rbm_ex) (permtable rbm_ex) \<and> 1 < nv rbm_ex \<and> 1 < permsize rbm_ex \<and> 0 < alpha rbm_ex \<and>
   abare (SetParameters rbm_ex [1, 2, 3, 4]) ! 1 = asymm (SetParameters rbm_ex [1, 2, 3, 4]) \<and>
   bbare (SetParameters rbm_ex [1, 2, 3, 4]) ! (permsize rbm_ex * 0 + 1) = bsymm (SetParameters rbm_ex [1, 2, 3, 4]) ! 0 \<and>
   Wbare (SetParameters rbm_ex [1, 2, 3, 4]) ! 1 ! (permsize rbm_ex * 0 + 1) =
           Wsymm (SetParameters rbm_ex [1, 2, 3, 4]) ! (permtable rbm_ex ! 1 ! 1) ! 0"
proof -
  have d: "dims_ok rbm_ex"
    unfolding rbm_ex_def by (rule dims_ok_SetParameters[OF dims_ok_Init])
  have t: "table_ok (nv rbm_ex) (permtable rbm_ex)"
    by (simp add: rbm_ex_def table_ok_def)
  have i: "1 < nv rbm_ex" and g: "1 < permsize rbm_ex" and f: "0 < alpha rbm_ex"
    by (simp_all add: rbm_ex_def)
  show ?thesis
    using d t i g f SetParameters_expansion[OF d t i g f, of "[1, 2, 3, 4]"] by simp
qed

section \<open>The log-derivatives\<close>

text \<open>The stable form of \<open>lncosh\<close> is the logarithm of the hyperbolic cosine.\<close>

lemma lncosh_eq: "lncosh x = ln (cosh x)"
proof -
  define A where "A = (1 + exp (- 2 * \<bar>x\<bar>)) / 2"
  have p: "0 < A" by (simp add: A_def add_pos_pos)
  have "cosh x = cosh \<bar>x\<bar>" by (simp add: abs_if)
  also have "\<dots> = exp \<bar>x\<bar> * A"
    by (simp add: A_def cosh_def algebra_simps exp_add[symmetric] exp_minus field_simps)
  finally have "ln (cosh x) = ln (exp \<bar>x\<bar> * A)" by simp
  also have "\<dots> = ln (exp \<bar>x\<bar>) + ln A"
    using p by (intro ln_mult_pos) simp_all
  finally show ?thesis by (simp add: lncosh_def A_def)
qed

lemma DERIV_lncosh: "(lncosh has_real_derivative tanh x) (at x)"
proof -
  have c: "0 < cosh x" by (rule cosh_real_pos)
  have "((\<lambda>x. ln (cosh x)) has_real_derivative tanh x) (at x)"
    using c by (auto intro!: derivative_eq_intros simp: tanh_def)
  moreover have "lncosh = (\<lambda>x. ln (cosh x))" by (rule ext) (rule lncosh_eq)
  ultimately show ?thesis by simp
qed

text \<open>
  With two channels, the row of \<open>DerMatSymm\<close> for the second hidden bias (row 2, after the
  visible bias and the first hidden bias) is never written.
\<close>

lemma DerMatSymm_ex2:
  "DerMatSymm (Init 2 2 True True [[0, 1], [1, 0]] :: real RbmSpinSymm) ! 2 = replicate 14 0 \<and>
   length (DerMatSymm (Init 2 2 True True [[0, 1], [1, 0]] :: real RbmSpinSymm)) = 7"
  by code_simp

text \<open>The machine \<open>rbm_ex2\<close> with its second hidden bias, parameter 2, set to \<open>x\<close>.\<close>

definition rbm_ex2_at :: "real \<Rightarrow> real RbmSpinSymm" where
  "rbm_ex2_at x = SetParameters (Init 2 2 True True [[0, 1], [1, 0]]) [0, 10, x, 0, 0, 0, 0]"

lemma rbm_ex2_at_fields:
  "nv (rbm_ex2_at x) = 2" "nh (rbm_ex2_at x) = 4"
  "abare (rbm_ex2_at x) = [0, 0]" "bbare (rbm_ex2_at x) = [10, 10, x, x]"
  "Wbare (rbm_ex2_at x) = [[0, 0, 0, 0], [0, 0, 0, 0]]"
  by (simp_all add: rbm_ex2_at_def SetParameters_def SetBareParameters_def Let_def zero_vec_def
      zero_mat_def mat_set_def case_prod_beta numeral_2_eq_2[symmetric] upt_small replicate_small)

lemma LogVal_ex2_at: "LogVal lncosh (rbm_ex2_at x) [1, -1] = 2 * lncosh 10 + 2 * lncosh x"
  by (simp add: LogVal_def thetas_def rbm_ex2_at_fields upt_small)

lemma length_BareDerLog: "length (BareDerLog tnh m v) = nbarepar m"
  by (simp add: BareDerLog_def Let_def case_prod_beta fold2_push_length fold_push_length zero_vec_def)

lemma mat_vec_zero_row:
  "r < length M \<Longrightarrow> M ! r = replicate (length x) 0 \<Longrightarrow> mat_vec M x ! r = 0"
proof -
  assume r: "r < length M" and z: "M ! r = replicate (length x) 0"
  have "(\<Sum>c\<leftarrow>[0..<length x]. of_real (replicate (length x) (0::real) ! c) * x ! c) = (\<Sum>c\<leftarrow>[0..<length x]. 0)"
    by (intro arg_cong[where f = sum_list] map_cong) simp_all
  then show ?thesis using r z by (simp add: mat_vec_def)
qed

text \<open>
  Claim C1. \<open>DerLog(v)\<close> should be the gradient of \<open>LogVal(v)\<close> with respect to the reduced
  parameters. On the ring of two sites with two feature channels and both biases, at the
  parameters \<open>[0, 10, 20, 0, 0, 0, 0]\<close> and \<open>v = [1, -1]\<close>, component 2 of \<open>DerLog(v)\<close> is 0,
  while the derivative of \<open>LogVal(v)\<close> in parameter 2 (the second hidden bias) is
  \<open>2 tanh 20\<close>, which is not 0. In \<open>Init\<close> the loop over the hidden biases computes
  \<open>ksymm\<close> from the parameter counter \<open>k\<close>, which does not change in the loop, where the
  loop over the weights divides the loop index by \<open>permsize\<close>.
\<close>

theorem DerLog_hidden_bias_component:
  "rbm_ex2_at 20 = rbm_ex2 \<and>
   DerLog tanh rbm_ex2 [1, -1] ! 2 = 0 \<and>
   ((\<lambda>x. LogVal lncosh (rbm_ex2_at x) [1, -1]) has_real_derivative 2 * tanh 20) (at 20) \<and>
   2 * tanh (20::real) \<noteq> 0"
proof -
  have e: "rbm_ex2_at 20 = rbm_ex2" by (simp add: rbm_ex2_at_def rbm_ex2_def)
  have D: "DerMatSymm rbm_ex2 = DerMatSymm (Init 2 2 True True [[0, 1], [1, 0]] :: real RbmSpinSymm)"
    by (simp add: rbm_ex2_def)
  have nb: "nbarepar rbm_ex2 = 14"
    by (simp add: rbm_ex2_def Init_def Let_def case_prod_beta)
  have "DerLog tanh rbm_ex2 [1, -1] ! 2 = 0"
    unfolding DerLog_def
    using DerMatSymm_ex2 by (intro mat_vec_zero_row) (simp_all add: D length_BareDerLog nb)
  moreover have "((\<lambda>x. LogVal lncosh (rbm_ex2_at x) [1, -1]) has_real_derivative 2 * tanh 20) (at 20)"
    unfolding LogVal_ex2_at
    by (auto intro!: derivative_eq_intros DERIV_lncosh)
  ultimately show ?thesis using e by simp
qed

section \<open>Random configurations of constrained spins\<close>

text \<open>Three spins 1/2 with the total magnetisation \<open>t\<close> imposed.\<close>

definition spin_ex :: "real \<Rightarrow> Spin" where
  "spin_ex t = \<lparr>spinS = 1/2, totalS = t, constraintSz = True, localstates = [-1, 1],
                nstates = 2, nspins = 3\<rparr>"

lemma Spin_json_ex: "Spin_json 3 (1/2) (Some t) = Inr (spin_ex t)"
  by (simp add: Spin_json_def Spin_Init_def SetConstraint_def spin_ex_def Let_def zero_vec_def
     upt_small replicate_small case_prod_beta)

text \<open>
  With \<open>TotalSz = -1/2\<close> the three spins get one up-spin and two down-spins, whose sum is
  \<open>-1 = 2 TotalSz\<close>.
\<close>

lemma RandomVals_ex_minus:
  "RandomVals (spin_ex (- 1/2)) [0, 0, 0]
     \<lparr>distrs = [], diststate = [], distu = [], distribution = [], shuffles = [[2, 0, 1]]\<rparr> =
   Inr ([-1, 1, -1], \<lparr>distrs = [], diststate = [], distu = [], distribution = [], shuffles = []\<rparr>)"
  by code_simp

text \<open>
  Claim C8. For spin 1/2 with a total-Sz constraint, \<open>RandomVals\<close> should place
  \<open>N/2 + S_z\<close> up-spins and \<open>N/2 - S_z\<close> down-spins and fail exactly when these counts are
  not integers. For \<open>N = 3\<close> and \<open>S_z = 1/2\<close> the counts are 2 and 1, and \<open>RandomVals\<close> aborts
  whatever the engine draws: \<open>nup = 3/2 + int(0.5) = 1\<close> in integer arithmetic, \<open>ndown = 2\<close>,
  and \<open>nup - ndown = -1\<close> is not \<open>int(2 * 0.5) = 1\<close>.
\<close>

theorem RandomVals_odd_half_aborts:
  "Spin_json 3 (1/2) (Some (1/2)) = Inr (spin_ex (1/2)) \<and>
   RandomVals (spin_ex (1/2)) [0, 0, 0] rg = Inl Abort \<and>
   real (nspins (spin_ex (1/2))) / 2 + totalS (spin_ex (1/2)) = 2 \<and>
   real (nspins (spin_ex (1/2))) / 2 - totalS (spin_ex (1/2)) = 1"
  by (simp add: Spin_json_ex) (simp add: RandomVals_def spin_ex_def trunc_def Let_def)

section \<open>Proposals, acceptance and the counters of a sweep\<close>

lemma uniform_int_Inr:
  "uniform_int lo hi ks = Inr (k, ks') \<longleftrightarrow> lo \<le> k \<and> k \<le> hi \<and> ks = k # ks'"
  by (auto simp: uniform_int_def split: list.splits)

lemma uniform_real_Inr:
  "uniform_real us = Inr (u, us') \<longleftrightarrow> 0 \<le> u \<and> u < 1 \<and> us = u # us'"
  by (auto simp: uniform_real_def split: list.splits)

lemma resample_result:
  "resample ls hi vsi nc ks = Inr (l, ks') \<Longrightarrow>
   dbl_epsilon \<le> \<bar>l - vsi\<bar> \<and> (l = nc \<or> (\<exists>k. 0 \<le> k \<and> k \<le> hi \<and> l = ls ! nat k))"
proof (induction ls hi vsi nc ks rule: resample.induct)
  case (1 ls hi vsi nc ks)
  show ?case
  proof (cases "\<bar>nc - vsi\<bar> < dbl_epsilon")
    case False
    with "1.prems" show ?thesis by (simp add: resample.simps[of ls hi vsi nc ks])
  next
    case True
    with "1.prems" obtain newstate ks1 where u: "uniform_int 0 hi ks = Inr (newstate, ks1)"
      and r: "resample ls hi vsi (ls ! nat newstate) ks1 = Inr (l, ks')"
      by (auto simp: resample.simps[of ls hi vsi nc ks] split: sum.splits)
    from "1.IH"[OF True u refl r] u show ?thesis
      by (auto simp: uniform_int_Inr)
  qed
qed

lemma dbl_epsilon_pos: "0 < dbl_epsilon"
  by (simp add: dbl_epsilon_def)

lemma Sweep_propose_result:
  assumes "Sweep_propose hilb v rg = Inr (tochange, newconf, rg1)"
  shows "\<exists>si l k. tochange = [si] \<and> newconf = [l] \<and> si < nspins hilb \<and> k < nstates hilb \<and>
           l = localstates hilb ! k \<and> dbl_epsilon \<le> \<bar>l - v ! si\<bar> \<and> l \<noteq> v ! si \<and>
           distu rg1 = distu rg \<and> distribution rg1 = distribution rg \<and> shuffles rg1 = shuffles rg"
proof -
  from assms obtain si ds newstate ks nc ks' where
    a: "uniform_int 0 (int (nspins hilb) - 1) (distrs rg) = Inr (si, ds)"
    and b: "uniform_int 0 (int (nstates hilb) - 1) (diststate rg) = Inr (newstate, ks)"
    and c: "resample (localstates hilb) (int (nstates hilb) - 1) (v ! nat si)
             (localstates hilb ! nat newstate) ks = Inr (nc, ks')"
    and d: "tochange = [nat si]" "newconf = [nc]" "rg1 = rg\<lparr>distrs := ds, diststate := ks'\<rparr>"
    by (auto simp: Sweep_propose_def split: sum.splits)
  from a have si: "nat si < nspins hilb" by (auto simp: uniform_int_Inr)
  from b have ns: "nat newstate < nstates hilb" by (auto simp: uniform_int_Inr)
  from resample_result[OF c] have e: "dbl_epsilon \<le> \<bar>nc - v ! nat si\<bar>"
    and k: "nc = localstates hilb ! nat newstate \<or>
            (\<exists>k. 0 \<le> k \<and> k \<le> int (nstates hilb) - 1 \<and> nc = localstates hilb ! nat k)"
    by blast+
  have "\<exists>k. k < nstates hilb \<and> nc = localstates hilb ! k"
  proof (rule disjE[OF k])
    assume "nc = localstates hilb ! nat newstate"
    with ns show ?thesis by blast
  next
    assume "\<exists>k. 0 \<le> k \<and> k \<le> int (nstates hilb) - 1 \<and> nc = localstates hilb ! nat k"
    then obtain k where "0 \<le> k" "k \<le> int (nstates hilb) - 1" "nc = localstates hilb ! nat k" by blast
    moreover then have "nat k < nstates hilb" by linarith
    ultimately show ?thesis by blast
  qed
  then obtain k where "k < nstates hilb" "nc = localstates hilb ! k" by blast
  moreover from e dbl_epsilon_pos have "nc \<noteq> v ! nat si" by auto
  ultimately show ?thesis using d si e by auto
qed

text \<open>Every move that the sampler proposes lists one site, inside the configuration.\<close>

lemma Sweep_propose_move_ok:
  assumes "Sweep_propose hilb v rg = Inr (tochange, newconf, rg1)"
  shows "move_ok (nspins hilb) tochange newconf"
proof -
  from Sweep_propose_result[OF assms] obtain si l where
    "tochange = [si]" "newconf = [l]" "si < nspins hilb"
    by blast
  then show ?thesis by (simp add: move_ok_def)
qed

lemma Sweep_step_result:
  assumes p: "Sweep_propose hilb (visible s) (engine s) = Inr (tochange, newconf, rg1)"
    and u: "uniform_real (distu rg1) = Inr (u, us)"
  shows "Sweep_step psi hilb s =
      Inr (if fp_gt (norm_exp (psi_LogValDiff psi (visible s) tochange newconf (lookup s))) u
           then s\<lparr>engine := rg1\<lparr>distu := us\<rparr>,
                  visible := UpdateConf (visible s) tochange newconf,
                  accept := accept s + 1,
                  moves := moves s + 1,
                  lookup := psi_UpdateLookup psi (visible s) tochange newconf (lookup s)\<rparr>
           else s\<lparr>engine := rg1\<lparr>distu := us\<rparr>, moves := moves s + 1\<rparr>)"
  using p u by (simp add: Sweep_step_def Let_def)

lemma Sweep_step_cases:
  assumes "Sweep_step psi hilb s = Inr s'"
  obtains tochange newconf rg1 u us where
    "Sweep_propose hilb (visible s) (engine s) = Inr (tochange, newconf, rg1)"
    "uniform_real (distu rg1) = Inr (u, us)"
  using assms by (auto simp: Sweep_step_def Let_def split: sum.splits)

lemma Sweep_step_moves:
  assumes "Sweep_step psi hilb s = Inr s'"
  shows "moves s' = moves s + 1"
proof -
  from assms obtain tochange newconf rg1 u us where
    p: "Sweep_propose hilb (visible s) (engine s) = Inr (tochange, newconf, rg1)"
    and u: "uniform_real (distu rg1) = Inr (u, us)"
    by (rule Sweep_step_cases)
  from Sweep_step_result[OF p u, of psi] assms show ?thesis
    by (auto split: if_splits)
qed

lemma Sweep_loop_moves: "Sweep_loop psi hilb n s = Inr s' \<Longrightarrow> moves s' = moves s + real n"
proof (induction n arbitrary: s)
  case 0 then show ?case by simp
next
  case (Suc n)
  then obtain s1 where a: "Sweep_step psi hilb s = Inr s1" and b: "Sweep_loop psi hilb n s1 = Inr s'"
    by (auto split: sum.splits)
  from Suc.IH[OF b] Sweep_step_moves[OF a] show ?case by simp
qed

lemma UpdateConf_single: "UpdateConf v [si] [l] = v[si := l]"
  by (simp add: UpdateConf_def)

lemma sum_list_update_real:
  fixes v :: "real list"
  shows "si < length v \<Longrightarrow> sum_list (v[si := l]) = sum_list v + (l - v ! si)"
proof (induction v arbitrary: si)
  case Nil then show ?case by simp
next
  case (Cons x v)
  then show ?case by (cases si) simp_all
qed

lemma Sweep_step_accept:
  assumes "Sweep_step psi hilb s = Inr s'"
  shows "(accept s' = accept s \<and> visible s' = visible s \<and> lookup s' = lookup s) \<or>
         (accept s' = accept s + 1 \<and>
          (\<exists>si l. si < nspins hilb \<and> l \<noteq> visible s ! si \<and> visible s' = (visible s)[si := l]))"
proof -
  from assms obtain tochange newconf rg1 u us where
    p: "Sweep_propose hilb (visible s) (engine s) = Inr (tochange, newconf, rg1)"
    and u: "uniform_real (distu rg1) = Inr (u, us)"
    by (rule Sweep_step_cases)
  from Sweep_propose_result[OF p] obtain si l where
    q: "tochange = [si]" "newconf = [l]" "si < nspins hilb" "l \<noteq> visible s ! si"
    by blast
  from Sweep_step_result[OF p u, of psi] assms q show ?thesis
    by (auto simp: UpdateConf_single split: if_splits)
qed

lemma Sweep_loop_accept:
  "Sweep_loop psi hilb n s = Inr s' \<Longrightarrow>
   accept s \<le> accept s' \<and> (accept s' = accept s \<longrightarrow> visible s' = visible s \<and> lookup s' = lookup s)"
proof (induction n arbitrary: s)
  case 0 then show ?case by simp
next
  case (Suc n)
  then obtain s1 where a: "Sweep_step psi hilb s = Inr s1" and b: "Sweep_loop psi hilb n s1 = Inr s'"
    by (auto split: sum.splits)
  from Suc.IH[OF b] Sweep_step_accept[OF a] show ?case by auto
qed

lemma Sweeps_accept:
  "Sweeps psi hilb n s = Inr s' \<Longrightarrow>
   accept s \<le> accept s' \<and> (accept s' = accept s \<longrightarrow> visible s' = visible s \<and> lookup s' = lookup s)"
proof (induction n arbitrary: s)
  case 0 then show ?case by simp
next
  case (Suc n)
  then obtain s1 where a: "Sweep psi hilb s = Inr s1" and b: "Sweeps psi hilb n s1 = Inr s'"
    by (auto split: sum.splits)
  from Suc.IH[OF b] Sweep_loop_accept[OF a[unfolded Sweep_def]] show ?case by auto
qed

text \<open>
  A concrete sampler: two spins 1/2 with \<open>TotalSz = 0\<close>, the machine \<open>rbm_ex\<close>, an engine
  given by its draws, and the sampler states over the look-up table \<open>[[0, 0]]\<close>.
\<close>

definition hilb_ex :: Spin where
  "hilb_ex = \<lparr>spinS = 1/2, totalS = 0, constraintSz = True, localstates = [-1, 1],
               nstates = 2, nspins = 2\<rparr>"

definition psi_ex :: "(real, real LookupType) WfType" where
  "psi_ex = RbmSpinSymm_psi lncosh rbm_ex"

definition rg_ex :: "int list \<Rightarrow> int list \<Rightarrow> real list \<Rightarrow> nat list list \<Rightarrow> rgen" where
  "rg_ex ds ks us ps = \<lparr>distrs = ds, diststate = ks, distu = us, distribution = [], shuffles = ps\<rparr>"

definition s_ex :: "rgen \<Rightarrow> real vec \<Rightarrow> real \<Rightarrow> real \<Rightarrow> real LookupType MetropolisLocal" where
  "s_ex rg v a m = \<lparr>engine = rg, visible = v, accept = a, moves = m, lookup = [[0, 0]]\<rparr>"

lemma Spin_json_hilb_ex: "Spin_json 2 (1/2) (Some 0) = Inr hilb_ex"
  by (simp add: Spin_json_def Spin_Init_def SetConstraint_def hilb_ex_def Let_def zero_vec_def
     upt_small replicate_small case_prod_beta)

lemma exp_facts: "1 < (exp (2::real))\<^sup>2 * 2" "\<not> 1 < (exp (- 2::real))\<^sup>2 * 2"
proof -
  have a: "3 \<le> exp (2::real)" using exp_ge_add_one_self[of 2] by simp
  then have "3 * 3 \<le> exp (2::real) * exp 2" by (intro mult_mono) simp_all
  then have b: "9 \<le> (exp (2::real))\<^sup>2" by (simp add: power2_eq_square)
  then show "1 < (exp (2::real))\<^sup>2 * 2" by simp
  have "(exp (- 2::real))\<^sup>2 = 1 / (exp 2)\<^sup>2" by (simp add: exp_minus power_divide divide_simps)
  also have "\<dots> \<le> 1 / 9" using b by (intro divide_left_mono) simp_all
  finally show "\<not> 1 < (exp (- 2::real))\<^sup>2 * 2" by simp
qed

lemma thetas_rbm_ex: "length v = 2 \<Longrightarrow> thetas rbm_ex v = [0, 0]"
  by (simp add: thetas_def rbm_ex_fields upt_small)

lemma upt_1_2: "[Suc 0..<2] = [Suc 0]"
  by (simp add: upt_rec)

lemma nspins_hilb_ex: "nspins hilb_ex = 2"
  by (simp add: hilb_ex_def)

lemma init_ex:
  "MetropolisLocal_Init psi_ex hilb_ex (rg_ex ds ks us [[0, 1]]) [] = Inr (s_ex (rg_ex ds ks us []) [1, -1] 0 0)"
  by (simp add: MetropolisLocal_Init_def Reset_def RandomVals_def hilb_ex_def trunc_def Let_def
      shuffle_def zero_vec_def upt_small replicate_small psi_ex_def RbmSpinSymm_psi_def rg_ex_def
      s_ex_def InitLookup_def thetas_rbm_ex upt_1_2)

lemma LogValDiff_rbm_ex:
  "si < 2 \<Longrightarrow> length v = 2 \<Longrightarrow> LogValDiff_lt lncosh rbm_ex v [si] [l] [[0, 0]] = l - v ! si"
  by (cases "si = 0"; cases "si = 1")
     (simp_all add: LogValDiff_lt_def rbm_ex_fields Let_def add_row_def)

lemma UpdateLookup_rbm_ex:
  "si < 2 \<Longrightarrow> UpdateLookup rbm_ex v [si] [l] [[0, 0]] = [[0, 0]]"
  by (cases "si = 0"; cases "si = 1")
     (simp_all add: UpdateLookup_def rbm_ex_fields Let_def add_row_def)

lemma step_ex_accept:
  "Sweep_step psi_ex hilb_ex (s_ex (rg_ex (1 # ds) (1 # ks) (1/2 # us) []) [1, -1] a m) =
     Inr (s_ex (rg_ex ds ks us []) [1, 1] (a + 1) (m + 1))"
  by (simp add: Sweep_step_def Sweep_propose_def uniform_int_def uniform_real_def resample.simps
      hilb_ex_def s_ex_def rg_ex_def psi_ex_def RbmSpinSymm_psi_def dbl_epsilon_def
      LogValDiff_rbm_ex UpdateLookup_rbm_ex UpdateConf_single norm_exp_def fp_gt_def exp_facts Let_def)

lemma step_ex_reject:
  "si \<in> {0, 1} \<Longrightarrow> Sweep_step psi_ex hilb_ex (s_ex (rg_ex (si # ds) (0 # ks) (1/2 # us) []) [1, 1] a m) =
     Inr (s_ex (rg_ex ds ks us []) [1, 1] a (m + 1))"
  by (auto simp add: Sweep_step_def Sweep_propose_def uniform_int_def uniform_real_def resample.simps
      hilb_ex_def s_ex_def rg_ex_def psi_ex_def RbmSpinSymm_psi_def dbl_epsilon_def
      LogValDiff_rbm_ex UpdateLookup_rbm_ex UpdateConf_single norm_exp_def fp_gt_def exp_facts Let_def)

lemma sweep_ex:
  "Sweep psi_ex hilb_ex (s_ex (rg_ex (1 # 0 # ds) (1 # 0 # ks) (1/2 # 1/2 # us) []) [1, -1] 0 0) =
     Inr (s_ex (rg_ex ds ks us []) [1, 1] 1 2)"
  using step_ex_accept[of "0 # ds" "0 # ks" "1/2 # us" 0 0] step_ex_reject[of 0 ds ks us 1 1]
  by (simp add: Sweep_def nspins_hilb_ex numeral_2_eq_2)

text \<open>
  When a sweep returns: the local states are pairwise at least \<open>epsilon\<close> apart (as those
  of \<open>Spin\<close> are), the configuration holds local states, and the engine delivers, inside
  the ranges of the distributions, one site and one uniform number per proposal and two
  local states per proposal, no two consecutive ones equal. Then every proposal needs at
  most one redraw.
\<close>

definition Spin_ok :: "Spin \<Rightarrow> bool" where
  "Spin_ok hilb \<longleftrightarrow>
     length (localstates hilb) = nstates hilb \<and>
     (\<forall>i < nstates hilb. \<forall>j < nstates hilb. i \<noteq> j \<longrightarrow>
        dbl_epsilon \<le> \<bar>localstates hilb ! i - localstates hilb ! j\<bar>)"

definition conf_ok :: "Spin \<Rightarrow> real vec \<Rightarrow> bool" where
  "conf_ok hilb v \<longleftrightarrow> length v = nspins hilb \<and> list_all (\<lambda>x. x \<in> set (localstates hilb)) v"

definition draws_ok :: "Spin \<Rightarrow> nat \<Rightarrow> rgen \<Rightarrow> bool" where
  "draws_ok hilb n rg \<longleftrightarrow>
     n \<le> length (distrs rg) \<and> list_all (\<lambda>k. 0 \<le> k \<and> k < int (nspins hilb)) (distrs rg) \<and>
     2 * n \<le> length (diststate rg) \<and> list_all (\<lambda>k. 0 \<le> k \<and> k < int (nstates hilb)) (diststate rg) \<and>
     distinct_adj (diststate rg) \<and>
     n \<le> length (distu rg) \<and> list_all (\<lambda>u. 0 \<le> u \<and> u < 1) (distu rg)"

lemma resample_two:
  assumes ok: "Spin_ok hilb" and vsi: "vsi \<in> set (localstates hilb)"
    and k0: "0 \<le> k0" "k0 < int (nstates hilb)"
    and ks: "list_all (\<lambda>k. 0 \<le> k \<and> k < int (nstates hilb)) ks" "distinct_adj (k0 # ks)" "ks \<noteq> []"
  shows "\<exists>l ks'. resample (localstates hilb) (int (nstates hilb) - 1) vsi (localstates hilb ! nat k0) ks
            = Inr (l, ks') \<and> (ks' = ks \<or> ks' = tl ks) \<and> l \<in> set (localstates hilb)"
proof -
  let ?ls = "localstates hilb" and ?hi = "int (nstates hilb) - 1"
  have len: "length ?ls = nstates hilb" using ok by (simp add: Spin_ok_def)
  have sep: "\<And>i j. i < nstates hilb \<Longrightarrow> j < nstates hilb \<Longrightarrow> i \<noteq> j \<Longrightarrow> dbl_epsilon \<le> \<bar>?ls ! i - ?ls ! j\<bar>"
    using ok by (simp add: Spin_ok_def)
  have n0: "nat k0 < nstates hilb" using k0 by linarith
  then have in0: "?ls ! nat k0 \<in> set ?ls" using len by simp
  show ?thesis
  proof (cases "\<bar>?ls ! nat k0 - vsi\<bar> < dbl_epsilon")
    case False
    then have "resample ?ls ?hi vsi (?ls ! nat k0) ks = Inr (?ls ! nat k0, ks)"
      by (simp add: resample.simps[of ?ls ?hi vsi "?ls ! nat k0" ks])
    then show ?thesis using in0 by blast
  next
    case True
    from vsi obtain j where j: "j < nstates hilb" "vsi = ?ls ! j"
      using len by (auto simp: in_set_conv_nth)
    have "j = nat k0"
    proof (rule ccontr)
      assume "j \<noteq> nat k0"
      then have "dbl_epsilon \<le> \<bar>?ls ! nat k0 - ?ls ! j\<bar>" using sep[OF n0 j(1)] by simp
      with True j show False by simp
    qed
    then have v0: "vsi = ?ls ! nat k0" using j by simp
    from ks obtain k1 ks1 where c: "ks = k1 # ks1" by (cases ks) auto
    then have k1: "0 \<le> k1" "k1 < int (nstates hilb)" "k1 \<noteq> k0" using ks by auto
    then have n1: "nat k1 < nstates hilb" "nat k1 \<noteq> nat k0" using k0 by linarith+
    have u: "uniform_int 0 ?hi ks = Inr (k1, ks1)"
      using k1 c by (simp add: uniform_int_Inr)
    have far: "\<not> \<bar>?ls ! nat k1 - vsi\<bar> < dbl_epsilon"
      using sep[OF n1(1) n0 n1(2)] v0 by simp
    have "resample ?ls ?hi vsi (?ls ! nat k0) ks = resample ?ls ?hi vsi (?ls ! nat k1) ks1"
      using True u by (simp add: resample.simps[of ?ls ?hi vsi "?ls ! nat k0" ks])
    also have "\<dots> = Inr (?ls ! nat k1, ks1)"
      using far by (simp add: resample.simps[of ?ls ?hi vsi "?ls ! nat k1" ks1])
    finally show ?thesis using c n1 len by auto
  qed
qed

lemma Sweep_step_total:
  assumes ok: "Spin_ok hilb" and v: "conf_ok hilb (visible s)" and d: "draws_ok hilb (Suc n) (engine s)"
  shows "\<exists>s'. Sweep_step psi hilb s = Inr s' \<and> conf_ok hilb (visible s') \<and> draws_ok hilb n (engine s')"
proof -
  let ?rg = "engine s"
  from d obtain si ds where ds: "distrs ?rg = si # ds" and si: "0 \<le> si" "si < int (nspins hilb)"
    and dsl: "n \<le> length ds" "list_all (\<lambda>k. 0 \<le> k \<and> k < int (nspins hilb)) ds"
    by (cases "distrs ?rg") (auto simp: draws_ok_def)
  from d obtain k0 ks where ks: "diststate ?rg = k0 # ks" and k0: "0 \<le> k0" "k0 < int (nstates hilb)"
    and ksl: "2 * n + 1 \<le> length ks" "list_all (\<lambda>k. 0 \<le> k \<and> k < int (nstates hilb)) ks"
       "distinct_adj (k0 # ks)"
    by (cases "diststate ?rg") (auto simp: draws_ok_def)
  from d obtain u us where us: "distu ?rg = u # us" and u: "0 \<le> u" "u < 1"
    and usl: "n \<le> length us" "list_all (\<lambda>u. 0 \<le> u \<and> u < 1) us"
    by (cases "distu ?rg") (auto simp: draws_ok_def)
  have a: "uniform_int 0 (int (nspins hilb) - 1) (distrs ?rg) = Inr (si, ds)"
    using ds si by (simp add: uniform_int_Inr)
  have b: "uniform_int 0 (int (nstates hilb) - 1) (diststate ?rg) = Inr (k0, ks)"
    using ks k0 by (simp add: uniform_int_Inr)
  have nsi: "nat si < length (visible s)" using si v by (simp add: conf_ok_def)
  then have vin: "visible s ! nat si \<in> set (localstates hilb)"
    using v by (simp add: conf_ok_def list_all_length)
  have kne: "ks \<noteq> []" using ksl by auto
  from resample_two[OF ok vin k0 ksl(2) ksl(3) kne] obtain l ks' where
    r: "resample (localstates hilb) (int (nstates hilb) - 1) (visible s ! nat si)
          (localstates hilb ! nat k0) ks = Inr (l, ks')"
    and ks': "ks' = ks \<or> ks' = tl ks" and l: "l \<in> set (localstates hilb)"
    by blast
  let ?rg1 = "?rg\<lparr>distrs := ds, diststate := ks'\<rparr>"
  have p: "Sweep_propose hilb (visible s) ?rg = Inr ([nat si], [l], ?rg1)"
    using a b r by (simp add: Sweep_propose_def)
  have ur: "uniform_real (distu ?rg1) = Inr (u, us)"
    using us u by (simp add: uniform_real_Inr)
  note res = Sweep_step_result[OF p ur, of psi]
  have kl: "2 * n \<le> length ks'" "list_all (\<lambda>k. 0 \<le> k \<and> k < int (nstates hilb)) ks'" "distinct_adj ks'"
  proof -
    from ks' show "2 * n \<le> length ks'" using ksl(1) by auto
    from ks' show "list_all (\<lambda>k. 0 \<le> k \<and> k < int (nstates hilb)) ks'"
      using ksl(2) kne by (cases ks) auto
    from ks' show "distinct_adj ks'"
      using ksl(3) kne by (cases ks) (auto simp: distinct_adj_Cons)
  qed
  have d': "draws_ok hilb n (?rg1\<lparr>distu := us\<rparr>)"
    using dsl kl usl by (simp add: draws_ok_def)
  have c': "conf_ok hilb ((visible s)[nat si := l])"
    using v l nsi by (auto simp: conf_ok_def list_all_length nth_list_update)
  show ?thesis
    using res d' c' v by (auto simp: UpdateConf_single)
qed

lemma Sweep_loop_total:
  assumes ok: "Spin_ok hilb"
  shows "conf_ok hilb (visible s) \<Longrightarrow> draws_ok hilb n (engine s) \<Longrightarrow>
         \<exists>s'. Sweep_loop psi hilb n s = Inr s' \<and> conf_ok hilb (visible s')"
proof (induction n arbitrary: s)
  case 0 then show ?case by simp
next
  case (Suc n)
  from Sweep_step_total[OF ok Suc.prems] obtain s1 where
    a: "Sweep_step psi hilb s = Inr s1" and b: "conf_ok hilb (visible s1)" "draws_ok hilb n (engine s1)"
    by blast
  from Suc.IH[OF b] a show ?case by simp
qed

text \<open>
  Claim C5. A call of \<open>Sweep\<close> returns when the engine delivers enough draws, and then it
  has made exactly \<open>N = nv\<close> proposals: \<open>moves\<close> has grown by \<open>N\<close>. Every proposal is one
  site below \<open>N\<close> and one local state different from the current value at that site. With
  the uniform draw \<open>u\<close> from \<open>[0, 1)\<close>, the proposal is accepted exactly when
  \<open>u < |exp(Delta)|^2\<close> for the log-ratio \<open>Delta\<close> that \<open>LogValDiff\<close> returns; on acceptance the
  look-up table is updated, the configuration is updated at the site and \<open>accept\<close> grows
  by 1; in either case \<open>moves\<close> grows by 1. That the site and the value are uniformly
  distributed is the contract of the distributions, which the model takes as given.
\<close>

theorem Sweep_proposals:
  "(Spin_ok hilb \<longrightarrow> conf_ok hilb (visible s) \<longrightarrow> draws_ok hilb (nspins hilb) (engine s) \<longrightarrow>
      (\<exists>s'. Sweep psi hilb s = Inr s')) \<and>
   (Sweep psi hilb s = Inr s' \<longrightarrow> moves s' = moves s + real (nspins hilb)) \<and>
   (Sweep_propose hilb (visible s) (engine s) = Inr (tochange, newconf, rg1) \<longrightarrow>
      (\<exists>si l k. tochange = [si] \<and> newconf = [l] \<and> si < nspins hilb \<and> k < nstates hilb \<and>
         l = localstates hilb ! k \<and> l \<noteq> visible s ! si) \<and>
      (uniform_real (distu rg1) = Inr (u, us) \<longrightarrow>
         0 \<le> u \<and> u < 1 \<and>
         Sweep_step psi hilb s =
           Inr (if fp_gt (norm_exp (psi_LogValDiff psi (visible s) tochange newconf (lookup s))) u
                then s\<lparr>engine := rg1\<lparr>distu := us\<rparr>,
                       visible := UpdateConf (visible s) tochange newconf,
                       accept := accept s + 1,
                       moves := moves s + 1,
                       lookup := psi_UpdateLookup psi (visible s) tochange newconf (lookup s)\<rparr>
                else s\<lparr>engine := rg1\<lparr>distu := us\<rparr>, moves := moves s + 1\<rparr>))) \<and>
   (fp_gt (norm_exp (Val z)) u \<longleftrightarrow> u < (norm (exp z))\<^sup>2)"
proof (intro conjI impI)
  assume "Spin_ok hilb" "conf_ok hilb (visible s)" "draws_ok hilb (nspins hilb) (engine s)"
  then show "\<exists>s'. Sweep psi hilb s = Inr s'"
    unfolding Sweep_def using Sweep_loop_total by blast
next
  assume "Sweep psi hilb s = Inr s'"
  then show "moves s' = moves s + real (nspins hilb)"
    unfolding Sweep_def by (rule Sweep_loop_moves)
next
  assume "Sweep_propose hilb (visible s) (engine s) = Inr (tochange, newconf, rg1)"
  from Sweep_propose_result[OF this]
  show "\<exists>si l k. tochange = [si] \<and> newconf = [l] \<and> si < nspins hilb \<and> k < nstates hilb \<and>
         l = localstates hilb ! k \<and> l \<noteq> visible s ! si"
    by blast
next
  assume "uniform_real (distu rg1) = Inr (u, us)"
  then show "0 \<le> u" "u < 1" by (simp_all add: uniform_real_Inr)
next
  assume "Sweep_propose hilb (visible s) (engine s) = Inr (tochange, newconf, rg1)"
    and "uniform_real (distu rg1) = Inr (u, us)"
  then show "Sweep_step psi hilb s =
           Inr (if fp_gt (norm_exp (psi_LogValDiff psi (visible s) tochange newconf (lookup s))) u
                then s\<lparr>engine := rg1\<lparr>distu := us\<rparr>,
                       visible := UpdateConf (visible s) tochange newconf,
                       accept := accept s + 1,
                       moves := moves s + 1,
                       lookup := psi_UpdateLookup psi (visible s) tochange newconf (lookup s)\<rparr>
                else s\<lparr>engine := rg1\<lparr>distu := us\<rparr>, moves := moves s + 1\<rparr>)"
    by (rule Sweep_step_result)
next
  show "fp_gt (norm_exp (Val z)) u \<longleftrightarrow> u < (norm (exp z))\<^sup>2"
    by (simp add: fp_gt_def norm_exp_def)
qed

lemma Spin_ok_hilb_ex: "Spin_ok hilb_ex"
  by (simp add: Spin_ok_def hilb_ex_def dbl_epsilon_def less_Suc_eq numeral_2_eq_2)

lemma propose_ex:
  "Sweep_propose hilb_ex [1, -1] (rg_ex (1 # ds) (1 # ks) us []) = Inr ([1], [1], rg_ex ds ks us [])"
  by (simp add: Sweep_propose_def uniform_int_def resample.simps hilb_ex_def rg_ex_def dbl_epsilon_def)

theorem Sweep_proposals_witness:
  "Spin_ok hilb_ex \<and>
   conf_ok hilb_ex (visible (s_ex (rg_ex [1, 0] [1, 0, 1, 0] [1/2, 1/2] []) [1, -1] 0 0)) \<and>
   draws_ok hilb_ex (nspins hilb_ex) (engine (s_ex (rg_ex [1, 0] [1, 0, 1, 0] [1/2, 1/2] []) [1, -1] 0 0)) \<and>
   Sweep psi_ex hilb_ex (s_ex (rg_ex [1, 0] [1, 0, 1, 0] [1/2, 1/2] []) [1, -1] 0 0) =
     Inr (s_ex (rg_ex [] [1, 0] [] []) [1, 1] 1 2) \<and>
   moves (s_ex (rg_ex [] [1, 0] [] []) [1, 1] 1 2) =
     moves (s_ex (rg_ex [1, 0] [1, 0, 1, 0] [1/2, 1/2] []) [1, -1] 0 0) + real (nspins hilb_ex) \<and>
   Sweep_propose hilb_ex (visible (s_ex (rg_ex [1, 0] [1, 0, 1, 0] [1/2, 1/2] []) [1, -1] 0 0))
       (engine (s_ex (rg_ex [1, 0] [1, 0, 1, 0] [1/2, 1/2] []) [1, -1] 0 0)) =
     Inr ([1], [1], rg_ex [0] [0, 1, 0] [1/2, 1/2] []) \<and>
   uniform_real (distu (rg_ex [0] [0, 1, 0] [1/2, 1/2] [])) = Inr (1/2, [1/2]) \<and>
   Sweep_step psi_ex hilb_ex (s_ex (rg_ex [1, 0] [1, 0, 1, 0] [1/2, 1/2] []) [1, -1] 0 0) =
     Inr (s_ex (rg_ex [0] [0, 1, 0] [1/2] []) [1, 1] 1 1)"
proof -
  let ?s = "s_ex (rg_ex [1, 0] [1, 0, 1, 0] [1/2, 1/2] []) [1, -1] 0 0"
  let ?s' = "s_ex (rg_ex [] [1, 0] [] []) [1, 1] 1 2"
  have a: "Spin_ok hilb_ex" by (rule Spin_ok_hilb_ex)
  have b: "conf_ok hilb_ex (visible ?s)" by (simp add: conf_ok_def hilb_ex_def s_ex_def)
  have c: "draws_ok hilb_ex (nspins hilb_ex) (engine ?s)"
    by (simp add: draws_ok_def hilb_ex_def s_ex_def rg_ex_def)
  have d: "Sweep psi_ex hilb_ex ?s = Inr ?s'" by (rule sweep_ex)
  have e: "Sweep_propose hilb_ex (visible ?s) (engine ?s) = Inr ([1], [1], rg_ex [0] [0, 1, 0] [1/2, 1/2] [])"
    by (simp add: s_ex_def propose_ex)
  have f: "uniform_real (distu (rg_ex [0] [0, 1, 0] [1/2, 1/2] [])) = Inr (1/2, [1/2])"
    by (simp add: uniform_real_def rg_ex_def)
  have g: "Sweep_step psi_ex hilb_ex ?s = Inr (s_ex (rg_ex [0] [0, 1, 0] [1/2] []) [1, 1] 1 1)"
    using step_ex_accept[of "[0]" "[0, 1, 0]" "[1/2]" 0 0] by simp
  show ?thesis
    using a b c d e f g
      Sweep_proposals[of hilb_ex ?s psi_ex ?s' "[1]" "[1]" "rg_ex [0] [0, 1, 0] [1/2, 1/2] []" "1/2" "[1/2]" 0]
    by (simp add: s_ex_def hilb_ex_def)
qed

section \<open>The magnetisation under sweeps\<close>

text \<open>
  Claim C4. The sampler never reads the constraint of the Hilbert space. The sum of the
  configuration keeps its value under any number of calls of \<open>Sweep\<close> in which no proposal
  is accepted (the counter \<open>accept\<close> keeps its value), and every accepted proposal changes
  the sum.
\<close>

theorem Sweep_magnetization:
  "(Sweeps psi hilb n s = Inr s' \<longrightarrow> accept s' = accept s \<longrightarrow>
      sum_list (visible s') = sum_list (visible s)) \<and>
   (Sweep_step psi hilb t = Inr t' \<longrightarrow> length (visible t) = nspins hilb \<longrightarrow> accept t' \<noteq> accept t \<longrightarrow>
      sum_list (visible t') \<noteq> sum_list (visible t))"
proof (intro conjI impI)
  assume "Sweeps psi hilb n s = Inr s'" "accept s' = accept s"
  then show "sum_list (visible s') = sum_list (visible s)"
    using Sweeps_accept by fastforce
next
  assume a: "Sweep_step psi hilb t = Inr t'" and l: "length (visible t) = nspins hilb"
    and c: "accept t' \<noteq> accept t"
  from Sweep_step_accept[OF a] c obtain si l where
    "si < nspins hilb" "l \<noteq> visible t ! si" "visible t' = (visible t)[si := l]"
    by blast
  then show "sum_list (visible t') \<noteq> sum_list (visible t)"
    using l by (simp add: sum_list_update_real)
qed

theorem Sweep_magnetization_witness:
  "Sweeps psi_ex hilb_ex 1 (s_ex (rg_ex [0, 1] [0, 0] [1/2, 1/2] []) [1, 1] 1 2) =
     Inr (s_ex (rg_ex [] [] [] []) [1, 1] 1 4) \<and>
   accept (s_ex (rg_ex [] [] [] []) [1, 1] 1 4) = accept (s_ex (rg_ex [0, 1] [0, 0] [1/2, 1/2] []) [1, 1] 1 2) \<and>
   sum_list (visible (s_ex (rg_ex [] [] [] []) [1, 1] 1 4)) =
     sum_list (visible (s_ex (rg_ex [0, 1] [0, 0] [1/2, 1/2] []) [1, 1] 1 2)) \<and>
   Sweep_step psi_ex hilb_ex (s_ex (rg_ex [1] [1] [1/2] []) [1, -1] 0 0) =
     Inr (s_ex (rg_ex [] [] [] []) [1, 1] 1 1) \<and>
   length (visible (s_ex (rg_ex [1] [1] [1/2] []) [1, -1] 0 0)) = nspins hilb_ex \<and>
   accept (s_ex (rg_ex [] [] [] []) [1, 1] 1 1) \<noteq> accept (s_ex (rg_ex [1] [1] [1/2] []) [1, -1] 0 0) \<and>
   sum_list (visible (s_ex (rg_ex [] [] [] []) [1, 1] 1 1)) \<noteq>
     sum_list (visible (s_ex (rg_ex [1] [1] [1/2] []) [1, -1] 0 0))"
proof -
  let ?s1 = "s_ex (rg_ex [0, 1] [0, 0] [1/2, 1/2] []) [1, 1] 1 2"
  let ?s2 = "s_ex (rg_ex [] [] [] []) [1, 1] 1 4"
  let ?t1 = "s_ex (rg_ex [1] [1] [1/2] []) [1, -1] 0 0"
  let ?t2 = "s_ex (rg_ex [] [] [] []) [1, 1] 1 1"
  have a: "Sweeps psi_ex hilb_ex 1 ?s1 = Inr ?s2"
    using step_ex_reject[of 0 "[1]" "[0]" "[1/2]" 1 2] step_ex_reject[of 1 "[]" "[]" "[]" 1 3]
    by (simp add: Sweep_def nspins_hilb_ex numeral_2_eq_2)
  have b: "accept ?s2 = accept ?s1" by (simp add: s_ex_def)
  have c: "Sweep_step psi_ex hilb_ex ?t1 = Inr ?t2"
    using step_ex_accept[of "[]" "[]" "[]" 0 0] by simp
  have d: "length (visible ?t1) = nspins hilb_ex" by (simp add: s_ex_def hilb_ex_def)
  have e: "accept ?t2 \<noteq> accept ?t1" by (simp add: s_ex_def)
  show ?thesis
    using a b c d e Sweep_magnetization[of psi_ex hilb_ex 1 ?s1 ?s2 ?t1 ?t2] by simp
qed

text \<open>
  Two spins 1/2 with \<open>TotalSz = 0\<close>: the sampler starts at \<open>v = [1, -1]\<close>, and one call of
  \<open>Sweep\<close>, which accepts the move of site 1 to \<open>+1\<close> and rejects the move of site 0 to
  \<open>-1\<close>, leaves \<open>v = [1, 1]\<close>.
\<close>

theorem Sweep_changes_magnetization:
  "Spin_json 2 (1/2) (Some 0) = Inr hilb_ex \<and>
   MetropolisLocal_Init psi_ex hilb_ex (rg_ex [1, 0] [1, 0] [1/2, 1/2] [[0, 1]]) [] =
     Inr (s_ex (rg_ex [1, 0] [1, 0] [1/2, 1/2] []) [1, -1] 0 0) \<and>
   Sweep psi_ex hilb_ex (s_ex (rg_ex [1, 0] [1, 0] [1/2, 1/2] []) [1, -1] 0 0) =
     Inr (s_ex (rg_ex [] [] [] []) [1, 1] 1 2) \<and>
   sum_list (visible (s_ex (rg_ex [1, 0] [1, 0] [1/2, 1/2] []) [1, -1] 0 0)) = 2 * totalS hilb_ex \<and>
   sum_list (visible (s_ex (rg_ex [] [] [] []) [1, 1] 1 2)) \<noteq>
     sum_list (visible (s_ex (rg_ex [1, 0] [1, 0] [1/2, 1/2] []) [1, -1] 0 0))"
  using Spin_json_hilb_ex init_ex[of "[1, 0]" "[1, 0]" "[1/2, 1/2]"] sweep_ex[of "[]" "[]" "[]"]
  by (simp add: s_ex_def hilb_ex_def)

section \<open>A log-ratio that is not a number\<close>

text \<open>
  Claim C9. If \<open>LogValDiff\<close> returns not-a-number for the proposal of a step, the step
  rejects it: the configuration, the look-up table and \<open>accept\<close> keep their values, and
  \<open>moves\<close> grows by 1.
\<close>

theorem Sweep_step_NaN_rejected:
  assumes "Sweep_propose hilb (visible s) (engine s) = Inr (tochange, newconf, rg1)"
    and "psi_LogValDiff psi (visible s) tochange newconf (lookup s) = NaN"
    and "uniform_real (distu rg1) = Inr (u, us)"
  shows "Sweep_step psi hilb s = Inr (s\<lparr>engine := rg1\<lparr>distu := us\<rparr>, moves := moves s + 1\<rparr>)"
  using Sweep_step_result[OF assms(1) assms(3), of psi] assms(2)
  by (simp add: norm_exp_def fp_gt_def)

text \<open>The machine \<open>psi_ex\<close> with a log-ratio that is never a number.\<close>

definition psi_nan :: "(real, real LookupType) WfType" where
  "psi_nan = psi_ex\<lparr>psi_LogValDiff := (\<lambda>v tochange newconf lt. NaN)\<rparr>"

theorem Sweep_step_NaN_rejected_witness:
  "Sweep_propose hilb_ex (visible (s_ex (rg_ex [1] [1] [1/2] []) [1, -1] 0 0))
       (engine (s_ex (rg_ex [1] [1] [1/2] []) [1, -1] 0 0)) = Inr ([1], [1], rg_ex [] [] [1/2] []) \<and>
   psi_LogValDiff psi_nan (visible (s_ex (rg_ex [1] [1] [1/2] []) [1, -1] 0 0)) [1] [1]
       (lookup (s_ex (rg_ex [1] [1] [1/2] []) [1, -1] 0 0)) = NaN \<and>
   uniform_real (distu (rg_ex [] [] [1/2] [])) = Inr (1/2, []) \<and>
   Sweep_step psi_nan hilb_ex (s_ex (rg_ex [1] [1] [1/2] []) [1, -1] 0 0) =
     Inr (s_ex (rg_ex [] [] [] []) [1, -1] 0 1)"
proof -
  let ?s = "s_ex (rg_ex [1] [1] [1/2] []) [1, -1] 0 0"
  have a: "Sweep_propose hilb_ex (visible ?s) (engine ?s) = Inr ([1], [1], rg_ex [] [] [1/2] [])"
    by (simp add: s_ex_def propose_ex)
  have b: "psi_LogValDiff psi_nan (visible ?s) [1] [1] (lookup ?s) = NaN"
    by (simp add: psi_nan_def)
  have c: "uniform_real (distu (rg_ex [] [] [1/2] [])) = Inr (1/2, [])"
    by (simp add: uniform_real_def rg_ex_def)
  show ?thesis
    using a b c Sweep_step_NaN_rejected[OF a b c] by (simp add: s_ex_def rg_ex_def)
qed

section \<open>The gradient of the learning driver (class Sr)\<close>

text \<open>
  Modelled from the spec: \<open>SumOnNodes\<close>, which is not among the sources, is the
  all-reduce-sum across the workers: every worker leaves the call with the sum of the
  values that the workers entered it with. The workers run the same program, so the
  model computes the values of all of them: a list with one entry per worker goes in,
  and the sum that each worker then holds comes out.
\<close>

definition SumOnNodes :: "complex list \<Rightarrow> complex" where
  "SumOnNodes xs = sum_list xs"

definition SumOnNodes_vec :: "nat \<Rightarrow> complex vec list \<Rightarrow> complex vec" where
  "SumOnNodes_vec n xss = map (\<lambda>p. SumOnNodes (map (\<lambda>xs. xs ! p) xss)) [0..<n]"

text \<open>
  The members of \<open>Sr\<close> that \<open>Gradient\<close> writes, on one worker. The observables that
  \<open>Gradient\<close> also pushes to the \<open>ObsManager\<close> do not enter the gradient.
\<close>

record Sr_node =
  elocs :: "complex vec"
  Ok :: "complex mat"
  Okmean :: "complex vec"
  elocmean :: complex
  grad :: "complex vec"

text \<open>
  The first loop of \<open>Gradient\<close>: the local energy and the log-derivatives of every row of
  the sample matrix \<open>vsamp_\<close>. \<open>Eloc\<close> and \<open>psi_.DerLog\<close> are arguments.
\<close>

definition Gradient_sample ::
  "(real vec \<Rightarrow> complex) \<Rightarrow> (real vec \<Rightarrow> complex vec) \<Rightarrow> real mat \<Rightarrow> complex vec \<times> complex mat" where
  "Gradient_sample Eloc psi_DerLog vsamp =
     (let nsamp = length vsamp
      in fold (\<lambda>i (el, Om). (el[i := Eloc (vsamp ! i)], Om[i := psi_DerLog (vsamp ! i)])) [0..<nsamp]
           (zero_vec nsamp, replicate nsamp []))"

text \<open>
  \<open>Gradient\<close> on the worker \<open>mynode\<close>, given the sample matrices of all the workers. The
  values a worker holds before a reduction are functions of the worker.
\<close>

definition Gradient ::
  "(real vec \<Rightarrow> complex) \<Rightarrow> (real vec \<Rightarrow> complex vec) \<Rightarrow> nat \<Rightarrow> real mat list \<Rightarrow> nat \<Rightarrow> Sr_node" where
  "Gradient Eloc psi_DerLog npar0 vsamps mynode =
     (let totalnodes = length vsamps;
          nsamp = (\<lambda>node. length (vsamps ! node));
          elocs1 = (\<lambda>node. fst (Gradient_sample Eloc psi_DerLog (vsamps ! node)));
          Ok1 = (\<lambda>node. snd (Gradient_sample Eloc psi_DerLog (vsamps ! node)));
          elocmean1 = (\<lambda>node. sum_list (elocs1 node) / of_nat (nsamp node));
          elocmean2 = SumOnNodes (map elocmean1 [0..<totalnodes]);
          elocmean3 = elocmean2 / of_nat totalnodes;
          Okmean1 = (\<lambda>node. map (\<lambda>p. (\<Sum>row\<leftarrow>Ok1 node. row ! p) / of_nat (nsamp node)) [0..<npar0]);
          Okmean2 = SumOnNodes_vec npar0 (map Okmean1 [0..<totalnodes]);
          Okmean3 = map (\<lambda>x. x / of_nat totalnodes) Okmean2;
          Ok2 = (\<lambda>node. map (\<lambda>row. map (\<lambda>p. row ! p - Okmean3 ! p) [0..<npar0]) (Ok1 node));
          elocs2 = (\<lambda>node. map (\<lambda>e. e - elocmean3 * 1) (elocs1 node));
          grad1 = (\<lambda>node. map (\<lambda>p. 2 * (\<Sum>k\<leftarrow>[0..<nsamp node]. cnj (Ok2 node ! k ! p) * elocs2 node ! k))
                            [0..<npar0]);
          grad2 = SumOnNodes_vec npar0 (map grad1 [0..<totalnodes]);
          grad3 = map (\<lambda>x. x / of_nat (totalnodes * nsamp mynode)) grad2
      in \<lparr>elocs = elocs2 mynode, Ok = Ok2 mynode, Okmean = Okmean3, elocmean = elocmean3,
          grad = grad3\<rparr>)"

text \<open>
  The estimator in the words of the spec: the means of \<open>E\<close> and \<open>O\<close> are the local means,
  summed across the \<open>W\<close> workers and divided by \<open>W\<close>; the gradient is
  \<open>(2 / (W M)) Sum_k conj(O_k - <O>) (E_k - <E>)\<close>, the sum running over the rows of all
  the workers.
\<close>

definition mean_E :: "complex list list \<Rightarrow> complex" where
  "mean_E Es =
     (\<Sum>node\<leftarrow>[0..<length Es]. sum_list (Es ! node) / of_nat (length (Es ! node))) / of_nat (length Es)"

definition mean_O :: "complex list list list \<Rightarrow> nat \<Rightarrow> complex" where
  "mean_O Os p =
     (\<Sum>node\<leftarrow>[0..<length Os]. (\<Sum>row\<leftarrow>Os ! node. row ! p) / of_nat (length (Os ! node))) /
       of_nat (length Os)"

definition spec_gradient :: "complex list list \<Rightarrow> complex list list list \<Rightarrow> nat \<Rightarrow> nat \<Rightarrow> complex" where
  "spec_gradient Es Os M p =
     2 / (of_nat (length Es) * of_nat M) *
       (\<Sum>node\<leftarrow>[0..<length Es]. \<Sum>k\<leftarrow>[0..<length (Es ! node)].
           cnj (Os ! node ! k ! p - mean_O Os p) * (Es ! node ! k - mean_E Es))"

lemma fold_pair_fill:
  "fold (\<lambda>i (el, Om). (el[i := f i], Om[i := g i])) xs (a0, b0) =
   (fold (\<lambda>i el. el[i := f i]) xs a0, fold (\<lambda>i Om. Om[i := g i]) xs b0)"
  by (induction xs arbitrary: a0 b0) simp_all

lemma fold_fill_all:
  "length xs = n \<Longrightarrow> fold (\<lambda>i xs. xs[i := f i]) [0..<n] xs = map f [0..<n]"
  by (rule nth_equalityI) (simp_all add: fold_fill_nth)

lemma Gradient_sample_eq:
  "Gradient_sample Eloc D vsamp = (map Eloc vsamp, map D vsamp)"
proof -
  have "map (\<lambda>i. Eloc (vsamp ! i)) [0..<length vsamp] = map Eloc vsamp"
    "map (\<lambda>i. D (vsamp ! i)) [0..<length vsamp] = map D vsamp"
    by (rule nth_equalityI, simp, simp)+
  then show ?thesis
    by (simp add: Gradient_sample_def Let_def fold_pair_fill fold_fill_all zero_vec_def)
qed


lemma sum_list_upt_cong:
  "(\<And>i. i < n \<Longrightarrow> f i = g i) \<Longrightarrow> (\<Sum>i\<leftarrow>[0..<n]. f i) = (\<Sum>i\<leftarrow>[0..<n]. g i)"
  by (rule arg_cong[where f = sum_list]) simp

lemma SumOnNodes_vec_length [simp]: "length (SumOnNodes_vec n xss) = n"
  by (simp add: SumOnNodes_vec_def)

lemma SumOnNodes_vec_nth:
  "p < n \<Longrightarrow> SumOnNodes_vec n (map f [0..<W]) ! p = (\<Sum>node\<leftarrow>[0..<W]. f node ! p)"
  by (simp add: SumOnNodes_vec_def SumOnNodes_def comp_def)

text \<open>
  Claim C7. On every worker, the gradient that \<open>Gradient\<close> leaves in \<open>grad_\<close> is the
  estimator of the spec, \<open>(2 / (W M_w)) Sum_k conj(O_k - <O>) (E_k - <E>)\<close> summed over the
  workers, with \<open>M_w\<close> the number of sample rows of the worker and \<open><E>\<close>, \<open><O>\<close> the
  all-reduce-averaged means, which are what \<open>elocmean_\<close> and \<open>Okmean_\<close> hold.
\<close>

theorem Gradient_estimator:
  assumes W: "vsamps \<noteq> []" and M: "list_all (\<lambda>vsamp. vsamp \<noteq> []) vsamps"
    and w: "mynode < length vsamps" and p: "p < npar0"
  shows "elocmean (Gradient Eloc D npar0 vsamps mynode) = mean_E (map (map Eloc) vsamps) \<and>
         Okmean (Gradient Eloc D npar0 vsamps mynode) ! p = mean_O (map (map D) vsamps) p \<and>
         grad (Gradient Eloc D npar0 vsamps mynode) ! p =
           spec_gradient (map (map Eloc) vsamps) (map (map D) vsamps) (length (vsamps ! mynode)) p"
proof -
  let ?W = "length vsamps"
  let ?Es = "map (map Eloc) vsamps" and ?Os = "map (map D) vsamps"
  let ?G = "Gradient Eloc D npar0 vsamps mynode"
  have e1: "(\<Sum>node\<leftarrow>[0..<?W]. sum_list (map Eloc (vsamps ! node)) / of_nat (length (vsamps ! node))) =
            (\<Sum>node\<leftarrow>[0..<?W]. sum_list (?Es ! node) / of_nat (length (?Es ! node)))"
    by (rule sum_list_upt_cong) simp
  have E: "elocmean ?G = mean_E ?Es"
    unfolding Gradient_def Let_def mean_E_def SumOnNodes_def
    using e1 by (simp add: Gradient_sample_eq)
  have o1: "(\<Sum>node\<leftarrow>[0..<?W]. (\<Sum>row\<leftarrow>map D (vsamps ! node). row ! q) / of_nat (length (vsamps ! node))) =
            (\<Sum>node\<leftarrow>[0..<?W]. (\<Sum>row\<leftarrow>?Os ! node. row ! q) / of_nat (length (?Os ! node)))" for q
    by (rule sum_list_upt_cong) simp
  have O: "Okmean ?G ! p = mean_O ?Os p"
    unfolding Gradient_def Let_def mean_O_def
    using p o1[of p] by (simp add: Gradient_sample_eq SumOnNodes_vec_nth)
  have inner: "(\<Sum>k\<leftarrow>[0..<length (vsamps ! node)].
           cnj (map (\<lambda>row. map (\<lambda>q. row ! q - c ! q) [0..<npar0]) (map D (vsamps ! node)) ! k ! p) *
             map (\<lambda>e. e - m * 1) (map Eloc (vsamps ! node)) ! k) =
         (\<Sum>k\<leftarrow>[0..<length (?Es ! node)]. cnj (?Os ! node ! k ! p - c ! p) * (?Es ! node ! k - m))"
    if "node < ?W" for node c m
    using that p by (simp, intro sum_list_upt_cong) simp
  have G: "grad ?G ! p =
      (\<Sum>node\<leftarrow>[0..<?W]. 2 * (\<Sum>k\<leftarrow>[0..<length (?Es ! node)].
           cnj (?Os ! node ! k ! p - Okmean ?G ! p) * (?Es ! node ! k - elocmean ?G))) /
        of_nat (?W * length (vsamps ! mynode))"
  proof -
    have "grad ?G ! p =
      (\<Sum>node\<leftarrow>[0..<?W]. 2 * (\<Sum>k\<leftarrow>[0..<length (vsamps ! node)].
           cnj (map (\<lambda>row. map (\<lambda>q. row ! q - Okmean ?G ! q) [0..<npar0]) (map D (vsamps ! node)) ! k ! p) *
             map (\<lambda>e. e - elocmean ?G * 1) (map Eloc (vsamps ! node)) ! k)) /
        of_nat (?W * length (vsamps ! mynode))"
      unfolding Gradient_def Let_def
      using p by (simp add: Gradient_sample_eq SumOnNodes_vec_nth)
    also have "(\<Sum>node\<leftarrow>[0..<?W]. 2 * (\<Sum>k\<leftarrow>[0..<length (vsamps ! node)].
           cnj (map (\<lambda>row. map (\<lambda>q. row ! q - Okmean ?G ! q) [0..<npar0]) (map D (vsamps ! node)) ! k ! p) *
             map (\<lambda>e. e - elocmean ?G * 1) (map Eloc (vsamps ! node)) ! k)) =
        (\<Sum>node\<leftarrow>[0..<?W]. 2 * (\<Sum>k\<leftarrow>[0..<length (?Es ! node)].
           cnj (?Os ! node ! k ! p - Okmean ?G ! p) * (?Es ! node ! k - elocmean ?G)))"
      by (rule sum_list_upt_cong) (simp only: inner)
    finally show ?thesis .
  qed
  have "grad ?G ! p = spec_gradient ?Es ?Os (length (vsamps ! mynode)) p"
    unfolding G E O spec_gradient_def
    by (simp add: sum_list_const_mult)
  with E O show ?thesis by simp
qed

text \<open>Two workers with two samples of one site each, and one parameter.\<close>

definition vsamps_ex :: "real mat list" where
  "vsamps_ex = [[[1], [-1]], [[1], [1]]]"

definition Eloc_ex :: "real vec \<Rightarrow> complex" where
  "Eloc_ex v = complex_of_real (v ! 0)"

definition DerLog_ex :: "real vec \<Rightarrow> complex vec" where
  "DerLog_ex v = [\<i> * complex_of_real (v ! 0)]"

lemma spec_gradient_ex:
  "spec_gradient (map (map Eloc_ex) vsamps_ex) (map (map DerLog_ex) vsamps_ex) 2 0 = - (3 / 2) * \<i>"
  by (simp add: spec_gradient_def mean_E_def mean_O_def vsamps_ex_def Eloc_ex_def DerLog_ex_def
      upt_small algebra_simps)

theorem Gradient_estimator_witness:
  "vsamps_ex \<noteq> [] \<and> list_all (\<lambda>vsamp. vsamp \<noteq> []) vsamps_ex \<and> 0 < length vsamps_ex \<and> (0::nat) < 1 \<and>
   elocmean (Gradient Eloc_ex DerLog_ex 1 vsamps_ex 0) = 1 / 2 \<and>
   grad (Gradient Eloc_ex DerLog_ex 1 vsamps_ex 0) ! 0 = - (3 / 2) * \<i>"
proof -
  have a: "vsamps_ex \<noteq> []" and b: "list_all (\<lambda>vsamp. vsamp \<noteq> []) vsamps_ex"
    and c: "0 < length vsamps_ex"
    by (simp_all add: vsamps_ex_def)
  have d: "(0::nat) < 1" by simp
  have e: "mean_E (map (map Eloc_ex) vsamps_ex) = 1 / 2"
    by (simp add: mean_E_def vsamps_ex_def Eloc_ex_def upt_small)
  have f: "length (vsamps_ex ! 0) = 2" by (simp add: vsamps_ex_def)
  show ?thesis
    using a b c Gradient_estimator[OF a b c d, of Eloc_ex DerLog_ex] e f spec_gradient_ex by simp
qed

section \<open>The table of translations\<close>

lemma those_map_Some:
  "(\<And>x. x \<in> set xs \<Longrightarrow> f x = Some (g x)) \<Longrightarrow> those (map f xs) = Some (map g xs)"
  by (induction xs) simp_all

lemma GenerateLatticePoints_fold:
  assumes "distinct cs"
  shows "Sites (fold record_point cs g) = Sites g @ cs \<and>
         Nsites (fold record_point cs g) = Nsites g + length cs \<and>
         Length (fold record_point cs g) = Length g \<and> Ndim (fold record_point cs g) = Ndim g \<and>
         pbc (fold record_point cs g) = pbc g \<and>
         (\<forall>i < length cs. Coord2Site (fold record_point cs g) (cs ! i) = Some (Nsites g + i)) \<and>
         (\<forall>c. c \<notin> set cs \<longrightarrow> Coord2Site (fold record_point cs g) c = Coord2Site g c)"
  using assms
proof (induction cs arbitrary: g)
  case Nil
  show ?case by simp
next
  case (Cons c cs)
  let ?g1 = "record_point c g"
  have d: "distinct cs" and nin: "c \<notin> set cs" using Cons.prems by simp_all
  note ih = Cons.IH[OF d, of ?g1]
  have g1: "Sites ?g1 = Sites g @ [c]" "Nsites ?g1 = Nsites g + 1" "Length ?g1 = Length g"
    "Ndim ?g1 = Ndim g" "pbc ?g1 = pbc g" "Coord2Site ?g1 = (Coord2Site g)(c \<mapsto> Nsites g)"
    by (simp_all add: record_point_def)
  have c0: "Coord2Site (fold record_point cs ?g1) c = Some (Nsites g)"
    using ih nin g1 by simp
  have "\<forall>i < length (c # cs). Coord2Site (fold record_point (c # cs) g) ((c # cs) ! i) = Some (Nsites g + i)"
  proof (intro allI impI)
    fix i assume "i < length (c # cs)"
    then show "Coord2Site (fold record_point (c # cs) g) ((c # cs) ! i) = Some (Nsites g + i)"
      using ih c0 g1 by (cases i) simp_all
  qed
  moreover have "\<forall>c'. c' \<notin> set (c # cs) \<longrightarrow> Coord2Site (fold record_point (c # cs) g) c' = Coord2Site g c'"
    using ih g1 by simp
  ultimately show ?case using ih g1 by simp
qed

lemma Hypercube_Init_fields:
  assumes "distinct cs"
  shows "Sites (Hypercube_Init L0 nd b cs) = cs" "Nsites (Hypercube_Init L0 nd b cs) = length cs"
    "Length (Hypercube_Init L0 nd b cs) = L0" "Ndim (Hypercube_Init L0 nd b cs) = nd"
    "pbc (Hypercube_Init L0 nd b cs) = b"
    "i < length cs \<Longrightarrow> Coord2Site (Hypercube_Init L0 nd b cs) (cs ! i) = Some i"
  using GenerateLatticePoints_fold[OF assms,
      of "\<lparr>Length = L0, Ndim = nd, pbc = b, Sites = [], Coord2Site = Map.empty, Nsites = 0\<rparr>\<lparr>Nsites := 0\<rparr>"]
  by (simp_all add: Hypercube_Init_def GenerateLatticePoints_def)


text \<open>The translations of a lattice: sums of coordinate vectors modulo \<open>L\<close>.\<close>

lemma add_mod_cancel:
  fixes a b b' L0 :: nat
  assumes "(a + b) mod L0 = (a + b') mod L0" "b < L0" "b' < L0"
  shows "b = b'"
proof -
  have aux: "y = x" if "(a + x) mod L0 = (a + y) mod L0" "x \<le> y" "y < L0" for x y
  proof -
    have "L0 dvd (a + y) - (a + x)"
      using that by (subst mod_eq_dvd_iff_nat[symmetric]) simp_all
    then have "L0 dvd y - x" by simp
    moreover have "y - x < L0" using that by simp
    ultimately have "y - x = 0" by (meson dvd_imp_le less_le_not_le not_gr_zero)
    then show ?thesis using that by simp
  qed
  show ?thesis
  proof (cases "b \<le> b'")
    case True
    then show ?thesis using aux[of b b'] assms by simp
  next
    case False
    then show ?thesis using aux[of b' b] assms by simp
  qed
qed

lemma lattice_point:
  assumes "lattice_ok L0 nd cs" "i < length cs"
  shows "length (cs ! i) = nd" "d < nd \<Longrightarrow> cs ! i ! d < L0"
proof -
  have "cs ! i \<in> set (List.n_lists nd [0..<L0])"
    using assms by (metis lattice_ok_def nth_mem)
  then have a: "length (cs ! i) = nd" "set (cs ! i) \<subseteq> {0..<L0}"
    by (simp_all add: set_n_lists)
  show "length (cs ! i) = nd" by (rule a)
  show "cs ! i ! d < L0" if "d < nd"
    using a that by (metis atLeastLessThan_iff nth_mem subsetD)
qed

lemma lattice_closed:
  assumes ok: "lattice_ok L0 nd cs" and c: "length c = nd" "\<And>d. d < nd \<Longrightarrow> c ! d < L0"
  shows "\<exists>q < length cs. cs ! q = c"
proof -
  have "set c \<subseteq> {0..<L0}" using c by (auto simp: in_set_conv_nth)
  then have "c \<in> set (List.n_lists nd [0..<L0])" using c by (simp add: set_n_lists)
  then have "c \<in> set cs" using ok by (simp add: lattice_ok_def)
  then show ?thesis by (simp add: in_set_conv_nth)
qed

text \<open>The entry of the symmetry table at row \<open>i\<close> and site \<open>p\<close>.\<close>

definition transl :: "Hypercube \<Rightarrow> nat \<Rightarrow> nat \<Rightarrow> nat" where
  "transl g i p = the (Coord2Site g (translate g i p))"

lemma translate_Init:
  assumes "distinct cs"
  shows "translate (Hypercube_Init L0 nd b cs) i p = map (\<lambda>d. (cs ! i ! d + cs ! p ! d) mod L0) [0..<nd]"
  by (simp add: translate_def Hypercube_Init_fields[OF assms])

lemma transl_props:
  assumes ok: "lattice_ok L0 nd cs" and i: "i < length cs" and p: "p < length cs"
  shows "transl (Hypercube_Init L0 nd b cs) i p < length cs"
    and "cs ! transl (Hypercube_Init L0 nd b cs) i p = map (\<lambda>d. (cs ! i ! d + cs ! p ! d) mod L0) [0..<nd]"
    and "Coord2Site (Hypercube_Init L0 nd b cs) (translate (Hypercube_Init L0 nd b cs) i p) =
           Some (transl (Hypercube_Init L0 nd b cs) i p)"
proof -
  let ?g = "Hypercube_Init L0 nd b cs"
  let ?c = "map (\<lambda>d. (cs ! i ! d + cs ! p ! d) mod L0) [0..<nd]"
  have dist: "distinct cs" and L: "0 < L0" using ok by (simp_all add: lattice_ok_def)
  have "\<exists>q < length cs. cs ! q = ?c"
    using ok by (rule lattice_closed) (simp_all add: L)
  then obtain q where q: "q < length cs" "cs ! q = ?c" by blast
  have "Coord2Site ?g (translate ?g i p) = Some q"
    using Hypercube_Init_fields(6)[OF dist q(1), of L0 nd b] q(2) by (simp add: translate_Init[OF dist])
  then have e: "transl ?g i p = q" by (simp add: transl_def)
  show "transl ?g i p < length cs" using e q by simp
  show "cs ! transl ?g i p = ?c" using e q by simp
  show "Coord2Site ?g (translate ?g i p) = Some (transl ?g i p)"
    using \<open>Coord2Site ?g (translate ?g i p) = Some q\<close> e by simp
qed

lemma SymmetryTable_Init:
  assumes ok: "lattice_ok L0 nd cs"
  shows "SymmetryTable (Hypercube_Init L0 nd True cs) =
     Inr (map (\<lambda>i. map (\<lambda>p. transl (Hypercube_Init L0 nd True cs) i p) [0..<length cs]) [0..<length cs])"
proof -
  let ?g = "Hypercube_Init L0 nd True cs"
  have dist: "distinct cs" using ok by (simp add: lattice_ok_def)
  have row: "those (map (\<lambda>p. Coord2Site ?g (translate ?g i p)) [0..<length cs]) =
             Some (map (\<lambda>p. transl ?g i p) [0..<length cs])" if "i < length cs" for i
    using that by (intro those_map_Some) (simp add: transl_props(3)[OF ok])
  have "those (map (\<lambda>i. those (map (\<lambda>p. Coord2Site ?g (translate ?g i p)) [0..<length cs])) [0..<length cs]) =
        Some (map (\<lambda>i. map (\<lambda>p. transl ?g i p) [0..<length cs]) [0..<length cs])"
    by (rule those_map_Some) (simp add: row)
  then show ?thesis
    by (simp add: SymmetryTable_def Hypercube_Init_fields[OF dist])
qed

lemma transl_eqI:
  assumes ok: "lattice_ok L0 nd cs" and q: "q < length cs" "q' < length cs" and e: "cs ! q = cs ! q'"
  shows "q = q'"
  using ok q e by (simp add: lattice_ok_def nth_eq_iff_index_eq)

lemma transl_commute:
  assumes ok: "lattice_ok L0 nd cs" and i: "i < length cs" and p: "p < length cs"
  shows "transl (Hypercube_Init L0 nd b cs) i p = transl (Hypercube_Init L0 nd b cs) p i"
proof (rule transl_eqI[OF ok])
  show "transl (Hypercube_Init L0 nd b cs) i p < length cs" by (rule transl_props(1)[OF ok i p])
  show "transl (Hypercube_Init L0 nd b cs) p i < length cs" by (rule transl_props(1)[OF ok p i])
  show "cs ! transl (Hypercube_Init L0 nd b cs) i p = cs ! transl (Hypercube_Init L0 nd b cs) p i"
    by (simp add: transl_props(2)[OF ok i p] transl_props(2)[OF ok p i] add.commute)
qed

lemma transl_assoc:
  assumes ok: "lattice_ok L0 nd cs" and i: "i < length cs" and h: "h < length cs" and p: "p < length cs"
  shows "transl (Hypercube_Init L0 nd b cs) (transl (Hypercube_Init L0 nd b cs) i h) p =
         transl (Hypercube_Init L0 nd b cs) i (transl (Hypercube_Init L0 nd b cs) h p)"
proof (rule transl_eqI[OF ok])
  let ?T = "transl (Hypercube_Init L0 nd b cs)"
  have ih: "?T i h < length cs" by (rule transl_props(1)[OF ok i h])
  have hp: "?T h p < length cs" by (rule transl_props(1)[OF ok h p])
  show "?T (?T i h) p < length cs" by (rule transl_props(1)[OF ok ih p])
  show "?T i (?T h p) < length cs" by (rule transl_props(1)[OF ok i hp])
  show "cs ! ?T (?T i h) p = cs ! ?T i (?T h p)"
    by (simp add: transl_props(2)[OF ok ih p] transl_props(2)[OF ok i hp]
        transl_props(2)[OF ok i h] transl_props(2)[OF ok h p] mod_simps add.assoc)
qed

lemma transl_inj:
  assumes ok: "lattice_ok L0 nd cs" and h: "h < length cs" and i: "i < length cs" and i': "i' < length cs"
    and e: "transl (Hypercube_Init L0 nd b cs) h i = transl (Hypercube_Init L0 nd b cs) h i'"
  shows "i = i'"
proof (rule transl_eqI[OF ok i i'])
  let ?T = "transl (Hypercube_Init L0 nd b cs)"
  have "map (\<lambda>d. (cs ! h ! d + cs ! i ! d) mod L0) [0..<nd] = map (\<lambda>d. (cs ! h ! d + cs ! i' ! d) mod L0) [0..<nd]"
    using e transl_props(2)[OF ok h i, of b] transl_props(2)[OF ok h i', of b] by simp
  then have m: "(cs ! h ! d + cs ! i ! d) mod L0 = (cs ! h ! d + cs ! i' ! d) mod L0" if "d < nd" for d
    using that by (simp add: list_eq_iff_nth_eq)
  show "cs ! i = cs ! i'"
  proof (rule nth_equalityI)
    show "length (cs ! i) = length (cs ! i')"
      by (simp add: lattice_point(1)[OF ok i] lattice_point(1)[OF ok i'])
    fix d assume "d < length (cs ! i)"
    then have d: "d < nd" by (simp add: lattice_point(1)[OF ok i])
    show "cs ! i ! d = cs ! i' ! d"
      using m[OF d] lattice_point(2)[OF ok i d] lattice_point(2)[OF ok i' d] by (rule add_mod_cancel)
  qed
qed

lemma transl_bij:
  assumes ok: "lattice_ok L0 nd cs" and h: "h < length cs"
  shows "bij_betw (transl (Hypercube_Init L0 nd b cs) h) {0..<length cs} {0..<length cs}"
proof -
  let ?T = "transl (Hypercube_Init L0 nd b cs) h"
  have inj: "inj_on ?T {0..<length cs}"
    by (rule inj_onI) (auto intro: transl_inj[OF ok h])
  have sub: "?T ` {0..<length cs} \<subseteq> {0..<length cs}"
    using transl_props(1)[OF ok h] by auto
  have "?T ` {0..<length cs} = {0..<length cs}"
    using inj sub by (intro card_subset_eq) (simp_all add: card_image)
  then show ?thesis using inj by (simp add: bij_betw_def)
qed

section \<open>Invariance of the symmetric RBM under translations\<close>

lemma SetParameters_as_bare:
  "SetParameters m p =
     SetBareParameters (m\<lparr>Wsymm := Wsymm (SetParameters m p), asymm := asymm (SetParameters m p),
                          bsymm := bsymm (SetParameters m p)\<rparr>)"
  by (simp add: SetParameters_def Let_def case_prod_beta)

lemma SetParameters_abare:
  fixes m :: "'a::zero RbmSpinSymm"
  assumes ok: "dims_ok m" and i: "i < nv m"
  shows "abare (SetParameters m p) ! i = asymm (SetParameters m p)"
proof -
  have la: "length (abare m) = nv m" using ok unfolding dims_ok_def by blast
  show ?thesis
    by (subst SetParameters_as_bare) (simp add: SetBareParameters_abare la i)
qed

lemma SetParameters_bbare:
  fixes m :: "'a::zero RbmSpinSymm"
  assumes ok: "dims_ok m" and j: "j < nh m"
  shows "bbare (SetParameters m p) ! j = bsymm (SetParameters m p) ! (j div permsize m)"
proof -
  have lb: "length (bbare m) = nh m" using ok unfolding dims_ok_def by blast
  show ?thesis
    by (subst SetParameters_as_bare) (simp add: SetBareParameters_bbare lb j)
qed

lemma SetParameters_Wbare:
  fixes m :: "'a::zero RbmSpinSymm"
  assumes ok: "dims_ok m" and i: "i < nv m" and j: "j < nh m"
  shows "Wbare (SetParameters m p) ! i ! j =
           Wsymm (SetParameters m p) ! (permtable m ! i ! (j mod permsize m)) ! (j div permsize m)"
proof -
  have wd: "mat_dims (Wbare m) (nv m) (nh m)" using ok unfolding dims_ok_def by blast
  show ?thesis
    by (subst SetParameters_as_bare) (simp add: SetBareParameters_Wbare wd i j)
qed

lemma LogVal_sums:
  fixes m :: "'a::real_normed_field RbmSpinSymm"
  shows "LogVal lnc m v =
     (\<Sum>i = 0..<nv m. of_real (v ! i) * abare m ! i) +
     (\<Sum>j = 0..<nh m. lnc ((\<Sum>i = 0..<nv m. Wbare m ! i ! j * of_real (v ! i)) + bbare m ! j))"
  by (simp add: LogVal_def thetas_def interv_sum_list_conv_sum_set_nat comp_def)

lemma block_bij:
  fixes N :: nat
  assumes b: "bij_betw t {0..<N} {0..<N}"
  shows "bij_betw (\<lambda>j. (j div N) * N + t (j mod N)) {0..<al * N} {0..<al * N}"
proof -
  define f where "f = (\<lambda>j. (j div N) * N + t (j mod N))"
  have t: "t x < N" if "x < N" for x using b that by (auto simp: bij_betw_def)
  have tinj: "x = y" if "t x = t y" "x < N" "y < N" for x y
    using b that by (auto simp: bij_betw_def inj_on_def)
  have N: "0 < N" if "j < al * N" for j using that by (cases N) auto
  have fd: "f j div N = j div N" and fm: "f j mod N = t (j mod N)" if "j < al * N" for j
  proof -
    have tl: "t (j mod N) < N" using N[OF that] by (intro t) simp
    have "N \<noteq> 0" using N[OF that] by simp
    then have "(j div N * N + t (j mod N)) div N = j div N + t (j mod N) div N"
      by (rule div_mult_self3)
    also have "t (j mod N) div N = 0" using tl by (rule div_less)
    finally show "f j div N = j div N" unfolding f_def by (simp only: add_0_right)
    show "f j mod N = t (j mod N)"
      unfolding f_def using tl by (simp only: mod_mult_self3 mod_less)
  qed
  have inj: "inj_on f {0..<al * N}"
  proof (rule inj_onI)
    fix x y assume "x \<in> {0..<al * N}" and "y \<in> {0..<al * N}" and e: "f x = f y"
    then have x: "x < al * N" and y: "y < al * N" by simp_all
    have "x div N = f x div N" by (rule fd[OF x, symmetric])
    also have "\<dots> = f y div N" by (rule arg_cong[OF e])
    also have "\<dots> = y div N" by (rule fd[OF y])
    finally have d: "x div N = y div N" .
    have "t (x mod N) = f x mod N" by (rule fm[OF x, symmetric])
    also have "\<dots> = f y mod N" by (rule arg_cong[OF e])
    also have "\<dots> = t (y mod N)" by (rule fm[OF y])
    finally have "t (x mod N) = t (y mod N)" .
    moreover have "x mod N < N" "y mod N < N" using N[OF x] by simp_all
    ultimately have md: "x mod N = y mod N" by (rule tinj)
    have "x = x div N * N + x mod N" by (rule div_mult_mod_eq[symmetric])
    also have "\<dots> = y div N * N + y mod N" unfolding d md ..
    also have "\<dots> = y" by (rule div_mult_mod_eq)
    finally show "x = y" .
  qed
  have sub: "f ` {0..<al * N} \<subseteq> {0..<al * N}"
  proof
    fix y assume "y \<in> f ` {0..<al * N}"
    then obtain j where j: "j < al * N" "y = f j" by auto
    have a: "j div N < al" using j N[OF j(1)] by (simp add: less_mult_imp_div_less)
    have "t (j mod N) < N" using N[OF j(1)] by (intro t) simp
    then have "f j < (j div N) * N + N" unfolding f_def by (rule add_strict_left_mono)
    also have "\<dots> = Suc (j div N) * N" by simp
    also have "\<dots> \<le> al * N" using a by (intro mult_le_mono1) simp
    finally show "y \<in> {0..<al * N}" using j by simp
  qed
  have "f ` {0..<al * N} = {0..<al * N}"
    using inj sub by (intro card_subset_eq) (simp_all add: card_image)
  then show ?thesis using inj unfolding f_def by (simp add: bij_betw_def)
qed

lemma permute_conf_nth: "i < length v \<Longrightarrow> permute_conf perm v ! i = v ! (perm ! i)"
  by (simp add: permute_conf_def)

lemma LogVal_translated:
  fixes pars :: "'a::real_normed_field vec"
  assumes ok: "lattice_ok L0 nd cs"
    and m: "m = SetParameters (Init (length cs) alpha0 usea0 useb0
                 (map (\<lambda>i. map (\<lambda>p. transl (Hypercube_Init L0 nd True cs) i p) [0..<length cs])
                    [0..<length cs])) pars"
    and v: "length v = length cs" and h: "h < length cs"
  shows "LogVal lnc m (map (\<lambda>i. v ! transl (Hypercube_Init L0 nd True cs) h i) [0..<length cs]) =
         LogVal lnc m v"
proof -
  let ?N = "length cs"
  let ?T = "transl (Hypercube_Init L0 nd True cs)"
  let ?pt = "map (\<lambda>i. map (\<lambda>p. ?T i p) [0..<?N]) [0..<?N]"
  let ?m0 = "Init ?N alpha0 usea0 useb0 ?pt :: 'a RbmSpinSymm"
  let ?v' = "map (\<lambda>i. v ! ?T h i) [0..<?N]"
  have d0: "dims_ok ?m0" by (rule dims_ok_Init)
  have Npos: "0 < ?N" using h by (rule le_less_trans[OF le0])
  have nvm: "nv m = ?N" and nhm: "nh m = alpha0 * ?N" by (simp_all add: m)
  have ps: "permsize ?m0 = ?N" and pt: "permtable ?m0 = ?pt" and nv0: "nv ?m0 = ?N"
    and nh0: "nh ?m0 = alpha0 * ?N"
    by simp_all
  define A where "A = asymm m"
  define B where "B = (\<lambda>f. bsymm m ! f)"
  define Ws where "Ws = (\<lambda>q f. Wsymm m ! q ! f)"
  have a: "abare m ! i = A" if "i < ?N" for i
    using SetParameters_abare[OF d0, of i pars] that unfolding m A_def by simp
  have bb: "bbare m ! j = B (j div ?N)" if "j < alpha0 * ?N" for j
    using SetParameters_bbare[OF d0, of j pars] that unfolding m B_def by simp
  have w: "Wbare m ! i ! j = Ws (?T i (j mod ?N)) (j div ?N)" if "i < ?N" "j < alpha0 * ?N" for i j
  proof -
    have "j mod ?N < ?N" using Npos by (rule mod_less_divisor)
    then have "?pt ! i ! (j mod ?N) = ?T i (j mod ?N)" using that by simp
    then show ?thesis
      using SetParameters_Wbare[OF d0, of i j pars] that unfolding m Ws_def by simp
  qed
  have bijT: "bij_betw (?T h) {0..<?N} {0..<?N}" by (rule transl_bij[OF ok h])
  define \<theta> where "\<theta> = (\<lambda>u j. (\<Sum>i = 0..<?N. Ws (?T i (j mod ?N)) (j div ?N) * of_real (u ! i)) + B (j div ?N))"
  have LV: "LogVal lnc m u = (\<Sum>i = 0..<?N. of_real (u ! i) * A) + (\<Sum>j = 0..<alpha0 * ?N. lnc (\<theta> u j))" for u
    unfolding LogVal_sums nvm nhm \<theta>_def
    by (intro arg_cong2[where f = "(+)"] sum.cong refl arg_cong[where f = lnc]) (simp_all add: a bb w)
  have v'n: "?v' ! i = v ! ?T h i" if "i < ?N" for i using that by simp
  have part1: "(\<Sum>i = 0..<?N. of_real (?v' ! i) * A) = (\<Sum>i = 0..<?N. of_real (v ! i) * A)"
  proof -
    have "(\<Sum>i = 0..<?N. of_real (?v' ! i) * A) = (\<Sum>i = 0..<?N. of_real (v ! ?T h i) * A)"
      by (intro sum.cong refl) (simp add: v'n)
    also have "\<dots> = (\<Sum>i = 0..<?N. of_real (v ! i) * A)"
      by (rule sum.reindex_bij_betw[OF bijT, of "\<lambda>i. of_real (v ! i) * A"])
    finally show ?thesis .
  qed
  define \<pi> where "\<pi> = (\<lambda>j. (j div ?N) * ?N + ?T h (j mod ?N))"
  have bij\<pi>: "bij_betw \<pi> {0..<alpha0 * ?N} {0..<alpha0 * ?N}"
    unfolding \<pi>_def by (rule block_bij[OF bijT])
  have th: "\<theta> ?v' (\<pi> j) = \<theta> v j" if j: "j < alpha0 * ?N" for j
  proof -
    let ?g = "j mod ?N" and ?f = "j div ?N"
    have g: "?g < ?N" using Npos by (rule mod_less_divisor)
    have tg: "?T h ?g < ?N" by (rule transl_props(1)[OF ok h g])
    have "?N \<noteq> 0" using Npos by simp
    then have "(?f * ?N + ?T h ?g) div ?N = ?f + ?T h ?g div ?N" by (rule div_mult_self3)
    also have "?T h ?g div ?N = 0" using tg by (rule div_less)
    finally have pd: "\<pi> j div ?N = ?f" unfolding \<pi>_def by (simp only: add_0_right)
    have pm: "\<pi> j mod ?N = ?T h ?g" unfolding \<pi>_def using tg by (simp only: mod_mult_self3 mod_less)
    have tt: "?T i (?T h ?g) = ?T (?T h i) ?g" if "i < ?N" for i
    proof -
      have "?T (?T h i) ?g = ?T (?T i h) ?g" by (simp only: transl_commute[OF ok h that])
      also have "\<dots> = ?T i (?T h ?g)" by (rule transl_assoc[OF ok that h g])
      finally show ?thesis by (rule sym)
    qed
    have "(\<Sum>i = 0..<?N. Ws (?T i (?T h ?g)) ?f * of_real (?v' ! i)) =
          (\<Sum>i = 0..<?N. Ws (?T (?T h i) ?g) ?f * of_real (v ! ?T h i))"
      by (intro sum.cong refl) (simp add: tt v'n)
    also have "\<dots> = (\<Sum>i = 0..<?N. Ws (?T i ?g) ?f * of_real (v ! i))"
      by (rule sum.reindex_bij_betw[OF bijT, of "\<lambda>i. Ws (?T i ?g) ?f * of_real (v ! i)"])
    finally show ?thesis unfolding \<theta>_def pd pm by (simp only:)
  qed
  have part2: "(\<Sum>j = 0..<alpha0 * ?N. lnc (\<theta> ?v' j)) = (\<Sum>j = 0..<alpha0 * ?N. lnc (\<theta> v j))"
  proof -
    have "(\<Sum>j = 0..<alpha0 * ?N. lnc (\<theta> ?v' j)) = (\<Sum>j = 0..<alpha0 * ?N. lnc (\<theta> ?v' (\<pi> j)))"
      by (rule sum.reindex_bij_betw[OF bij\<pi>, of "\<lambda>j. lnc (\<theta> ?v' j)", symmetric])
    also have "\<dots> = (\<Sum>j = 0..<alpha0 * ?N. lnc (\<theta> v j))"
      by (intro sum.cong refl) (simp add: th)
    finally show ?thesis .
  qed
  show ?thesis unfolding LV part1 part2 ..
qed

text \<open>
  Claim C3. For a symmetric RBM built from a hypercube with periodic boundaries (its
  number of sites and its symmetry table), every reduced parameter vector, every
  configuration \<open>v\<close> and every row \<open>g\<close> of the table of translations, \<open>LogVal\<close> of the
  permuted configuration equals \<open>LogVal(v)\<close>. The equality is exact, for every function in
  the place of \<open>lncosh\<close>, any number of feature channels and either choice of the biases.
\<close>

theorem LogVal_translation_invariant:
  fixes pars :: "'a::real_normed_field vec"
  assumes ok: "lattice_ok L0 nd cs"
    and tab: "SymmetryTable (Hypercube_Init L0 nd True cs) = Inr pt"
    and h: "h < length pt"
    and v: "length v = Nsites (Hypercube_Init L0 nd True cs)"
  shows "LogVal lnc (SetParameters (Init (Nsites (Hypercube_Init L0 nd True cs)) alpha0 usea0 useb0 pt) pars)
           (permute_conf (pt ! h) v) =
         LogVal lnc (SetParameters (Init (Nsites (Hypercube_Init L0 nd True cs)) alpha0 usea0 useb0 pt) pars) v"
proof -
  let ?g = "Hypercube_Init L0 nd True cs"
  have dist: "distinct cs" using ok by (simp add: lattice_ok_def)
  have N: "Nsites ?g = length cs" by (rule Hypercube_Init_fields(2)[OF dist])
  have pt: "pt = map (\<lambda>i. map (\<lambda>p. transl ?g i p) [0..<length cs]) [0..<length cs]"
    using tab SymmetryTable_Init[OF ok] by simp
  have h': "h < length cs" using h pt by simp
  have lv: "length v = length cs" using v N by simp
  have pc: "permute_conf (pt ! h) v = map (\<lambda>i. v ! transl ?g h i) [0..<length cs]"
    unfolding permute_conf_def lv
    by (rule map_cong[OF refl]) (simp add: pt h')
  show ?thesis
    unfolding pc N
    by (rule LogVal_translated[OF ok _ lv h']) (simp add: pt)
qed

lemma lattice_ok_ex: "lattice_ok 2 1 [[0], [1]]"
  by (simp add: lattice_ok_def upt_small insert_commute)

lemma SymmetryTable_ex: "SymmetryTable (Hypercube_Init 2 1 True [[0], [1]]) = Inr [[0, 1], [1, 0]]"
  by (simp add: SymmetryTable_def Hypercube_Init_def GenerateLatticePoints_def record_point_def
      translate_def upt_small)

theorem LogVal_translation_invariant_witness:
  "lattice_ok 2 1 [[0], [1]] \<and>
   SymmetryTable (Hypercube_Init 2 1 True [[0], [1]]) = Inr [[0, 1], [1, 0]] \<and>
   (1::nat) < length [[0, 1], [1, 0::nat]] \<and>
   length [1, -1 :: real] = Nsites (Hypercube_Init 2 1 True [[0], [1]]) \<and>
   LogVal lncosh (SetParameters (Init (Nsites (Hypercube_Init 2 1 True [[0], [1]])) 1 True True [[0, 1], [1, 0]])
        [1, 2, 3, 4]) (permute_conf ([[0, 1], [1, 0]] ! 1) [1, -1]) =
   LogVal lncosh (SetParameters (Init (Nsites (Hypercube_Init 2 1 True [[0], [1]])) 1 True True [[0, 1], [1, 0]])
        [1, 2, 3, 4]) [1, -1]"
proof -
  have a: "lattice_ok 2 1 [[0], [1]]" by (rule lattice_ok_ex)
  have b: "SymmetryTable (Hypercube_Init 2 1 True [[0], [1]]) = Inr [[0, 1], [1, 0]]"
    by (rule SymmetryTable_ex)
  have c: "(1::nat) < length [[0, 1], [1, 0::nat]]" by simp
  have d: "length [1, -1 :: real] = Nsites (Hypercube_Init 2 1 True [[0], [1]])"
    by (simp add: Hypercube_Init_def GenerateLatticePoints_def record_point_def)
  show ?thesis
    using a b c d LogVal_translation_invariant[OF a b c d, of lncosh 1 True True "[1, 2, 3, 4]"]
    by simp
qed

end
